theory Spec2Isabelle
  imports Main "HOL-Library.Word" "HOL-Library.Monad_Syntax"
begin

section \<open>The formula pool of carl: data model\<close>

text \<open>
  Pointers to \<open>FormulaContent\<close> objects are addresses into an explicit heap; a
  pointer that may be \<open>nullptr\<close> is an \<open>addr option\<close>.  Reading through a
  dangling pointer and a failing \<open>assert\<close> are the result \<open>None\<close> of an
  operation.
\<close>

type_synonym addr = nat

datatype FormulaType =
  ITE | EXISTS | FORALL | TRUE | FALSE | BOOL | NOT | IMPLIES | AND | OR | XOR | IFF
  | CONSTRAINT | VARCOMPARE | VARASSIGN | BITVECTOR | UEQ | PBCONSTRAINT

text \<open>The payload union of a node: the member that is live depends on the type.\<close>

datatype 'c Content =
  NoContent
  | Variable nat
  | Constr 'c
  | Subformula addr
  | Subformulas "addr list"

record 'c FormulaContent =
  mId :: "32 word"
  mType :: FormulaType
  mContent :: "'c Content"
  mNegation :: "addr option"
  mUsages :: nat
  mDifficulty :: nat

record 'c FormulaPool =
  mIdAllocator :: "32 word"
  mpTrue :: addr
  mpFalse :: addr
  mPool :: "addr list"
  mTseitinVars :: "addr \<rightharpoonup> addr"
  mTseitinVarToFormula :: "addr \<rightharpoonup> addr"
  heap :: "addr \<rightharpoonup> 'c FormulaContent"
  nextAddr :: addr

text \<open>\<open>std::numeric_limits<size_t>::max()\<close> on a 64-bit target.\<close>

definition SIZE_MAX :: nat where
  "SIZE_MAX = 2 ^ 64 - 1"

definition trueFormula :: "'c FormulaPool \<Rightarrow> addr" where
  "trueFormula p = mpTrue p"

definition falseFormula :: "'c FormulaPool \<Rightarrow> addr" where
  "falseFormula p = mpFalse p"

text \<open>\<open>isBaseFormula(const FormulaContent*)\<close>: compares the node's constraint with the
  constraint of its negation; the ordering of constraints is the one of the type \<open>'c\<close>.\<close>

definition isBaseFormula :: "('c::linorder) FormulaPool \<Rightarrow> addr \<Rightarrow> bool option" where
  "isBaseFormula p f =
     (case heap p f of
        None \<Rightarrow> None
      | Some c \<Rightarrow>
          if mType c \<noteq> CONSTRAINT then None
          else (case mNegation c of
                  None \<Rightarrow> None
                | Some n \<Rightarrow>
                    (case heap p n of
                       None \<Rightarrow> None
                     | Some cn \<Rightarrow>
                         (case (mContent c, mContent cn) of
                            (Constr a, Constr b) \<Rightarrow> Some (a < b)
                          | _ \<Rightarrow> None))))"

definition getBaseFormula :: "('c::linorder) FormulaPool \<Rightarrow> addr \<Rightarrow> addr option" where
  "getBaseFormula p f =
     (case heap p f of
        None \<Rightarrow> None
      | Some c \<Rightarrow>
          if mType c = NOT then mNegation c
          else if mType c = CONSTRAINT then
            (case isBaseFormula p f of
               None \<Rightarrow> None
             | Some b \<Rightarrow> if b then Some f else mNegation c)
          else Some f)"

text \<open>\<open>reg\<close>: one more use of the base formula; the first use registered through a
  CONSTRAINT node counts twice.\<close>

definition reg :: "('c::linorder) FormulaPool \<Rightarrow> addr \<Rightarrow> 'c FormulaPool option" where
  "reg p elem =
     (case getBaseFormula p elem of
        None \<Rightarrow> None
      | Some tmp \<Rightarrow>
          (case (heap p tmp, heap p elem) of
             (Some ct, Some ce) \<Rightarrow>
               if \<not> mUsages ct < SIZE_MAX then None
               else
                 let u = mUsages ct + 1;
                     u' = (if u = 1 \<and> mType ce = CONSTRAINT then u + 1 else u)
                 in Some (p\<lparr>heap := (heap p)(tmp \<mapsto> ct\<lparr>mUsages := u'\<rparr>)\<rparr>)
           | _ \<Rightarrow> None))"

subsection \<open>Releasing nodes\<close>

text \<open>\<open>delete\<close> of an object: the address must hold a live object.\<close>

definition delete_obj :: "'c FormulaPool \<Rightarrow> addr \<Rightarrow> 'c FormulaPool option" where
  "delete_obj p a =
     (case heap p a of
        None \<Rightarrow> None
      | Some _ \<Rightarrow> Some (p\<lparr>heap := (heap p)(a := None)\<rparr>))"

text \<open>\<open>mPool.erase(tmp)\<close>; the table holds at most one pointer per node.\<close>

definition pool_erase :: "'c FormulaPool \<Rightarrow> addr \<Rightarrow> 'c FormulaPool" where
  "pool_erase p a = p\<lparr>mPool := removeAll a (mPool p)\<rparr>"

text \<open>The common tail \<open>mPool.erase(tmp); delete tmp->mNegation; delete tmp;\<close>.\<close>

definition erase_and_delete :: "'c FormulaPool \<Rightarrow> addr \<Rightarrow> 'c FormulaPool option" where
  "erase_and_delete p tmp =
     (case heap p tmp of
        None \<Rightarrow> None
      | Some ct \<Rightarrow>
          (case mNegation ct of
             None \<Rightarrow> None
           | Some n \<Rightarrow>
               (case delete_obj (pool_erase p tmp) n of
                  None \<Rightarrow> None
                | Some p' \<Rightarrow> delete_obj p' tmp)))"

text \<open>\<open>freeTseitinVariable\<close>.  An iterator into \<open>mTseitinVars\<close>, as stored in
  \<open>mTseitinVarToFormula\<close>, is the key of the entry it points to.\<close>

definition freeTseitinVariable ::
  "('c::linorder) FormulaPool \<Rightarrow> addr \<Rightarrow> ('c FormulaPool \<times> bool) option" where
  "freeTseitinVariable p toDelete =
     (case mTseitinVars p toDelete of
        Some tv \<Rightarrow>
          (case heap p tv of
             None \<Rightarrow> None
           | Some ctv \<Rightarrow>
               if mUsages ctv = 1 then
                 (let p1 = p\<lparr>mTseitinVars := (mTseitinVars p)(toDelete := None)\<rparr>
                  in if mTseitinVarToFormula p1 tv = None then None
                     else
                       (let p2 = p1\<lparr>mTseitinVarToFormula := (mTseitinVarToFormula p1)(tv := None)\<rparr>
                        in map_option (\<lambda>q. (q, False)) (erase_and_delete p2 tv)))
               else Some (p, True))
      | None \<Rightarrow>
          (case mTseitinVarToFormula p toDelete of
             None \<Rightarrow> Some (p, False)
           | Some k \<Rightarrow>
               (case heap p k of
                  None \<Rightarrow> None
                | Some fcont \<Rightarrow>
                    if mUsages fcont = 1 then
                      (case getBaseFormula p k of
                         None \<Rightarrow> None
                       | Some tmp \<Rightarrow>
                           (let p1 = p\<lparr>mTseitinVars := (mTseitinVars p)(k := None)\<rparr>;
                                p2 = p1\<lparr>mTseitinVarToFormula :=
                                          (mTseitinVarToFormula p1)(toDelete := None)\<rparr>
                            in map_option (\<lambda>q. (q, False)) (erase_and_delete p2 tmp)))
                    else Some (p, True))))"

text \<open>\<open>free\<close>: the deletion branch is taken when the decremented counter is 1.\<close>

definition free :: "('c::linorder) FormulaPool \<Rightarrow> addr \<Rightarrow> 'c FormulaPool option" where
  "free p elem =
     (case getBaseFormula p elem of
        None \<Rightarrow> None
      | Some tmp \<Rightarrow>
          (case heap p tmp of
             None \<Rightarrow> None
           | Some ct \<Rightarrow>
               if \<not> mUsages ct > 0 then None
               else
                 (let p1 = p\<lparr>heap := (heap p)(tmp \<mapsto> ct\<lparr>mUsages := mUsages ct - 1\<rparr>)\<rparr>
                  in if mUsages ct - 1 = 1 then
                       (case freeTseitinVariable p1 tmp of
                          None \<Rightarrow> None
                        | Some (p2, s1) \<Rightarrow>
                            (case heap p2 tmp of
                               None \<Rightarrow> None
                             | Some ct2 \<Rightarrow>
                                 (case mNegation ct2 of
                                    None \<Rightarrow> None
                                  | Some n \<Rightarrow>
                                      (case freeTseitinVariable p2 n of
                                         None \<Rightarrow> None
                                       | Some (p3, s2) \<Rightarrow>
                                           if \<not> (s1 \<or> s2) then erase_and_delete p3 tmp
                                           else Some p3))))
                     else Some p1)))"

subsection \<open>Publishing nodes\<close>

text \<open>\<open>new FormulaContent(...)\<close>: the object is placed at the next unused address.\<close>

definition alloc :: "'c FormulaPool \<Rightarrow> 'c FormulaContent \<Rightarrow> 'c FormulaPool \<times> addr" where
  "alloc p c = (p\<lparr>heap := (heap p)(nextAddr p \<mapsto> c), nextAddr := nextAddr p + 1\<rparr>, nextAddr p)"

text \<open>Modelled from the spec: the constructors of \<open>FormulaContent\<close> (Formula.h is not
  part of the sources).  A fresh node has its tag and payload, no id yet, no negation yet
  and no uses.\<close>

definition FormulaContent_new :: "FormulaType \<Rightarrow> 'c Content \<Rightarrow> 'c FormulaContent" where
  "FormulaContent_new t c =
     \<lparr>mId = 0, mType = t, mContent = c, mNegation = None, mUsages = 0, mDifficulty = 0\<rparr>"

text \<open>Modelled from the spec: the constructor of a \<open>Formula\<close> handle from a content
  pointer registers one use (``construction registers, destruction releases'').\<close>

definition Formula_handle :: "('c::linorder) FormulaPool \<Rightarrow> addr \<Rightarrow> 'c FormulaPool option" where
  "Formula_handle p a = reg p a"

text \<open>\<open>createNegatedContent\<close>; \<open>cneg\<close> is \<open>Constraint::negation()\<close>.  The NOT node
  owns a handle on \<open>f\<close>.\<close>

definition createNegatedContent ::
  "('c::linorder) FormulaPool \<Rightarrow> ('c \<Rightarrow> 'c) \<Rightarrow> addr \<Rightarrow> ('c FormulaPool \<times> addr) option" where
  "createNegatedContent p cneg f =
     (case heap p f of
        None \<Rightarrow> None
      | Some c \<Rightarrow>
          if mType c = CONSTRAINT then
            (case mContent c of
               Constr k \<Rightarrow> Some (alloc p (FormulaContent_new CONSTRAINT (Constr (cneg k))))
             | _ \<Rightarrow> None)
          else
            (case Formula_handle p f of
               None \<Rightarrow> None
             | Some p' \<Rightarrow> Some (alloc p' (FormulaContent_new NOT (Subformula f)))))"

text \<open>Modelled from the spec: equality of nodes as used by the lookup table (type,
  sub-formula identities, payload); ids, uses and negation links take no part.\<close>

definition content_eq :: "'c FormulaContent \<Rightarrow> 'c FormulaContent \<Rightarrow> bool" where
  "content_eq a b \<longleftrightarrow> mType a = mType b \<and> mContent a = mContent b"

definition pool_find :: "'c FormulaPool \<Rightarrow> 'c FormulaContent \<Rightarrow> addr option" where
  "pool_find p c =
     find (\<lambda>a. case heap p a of None \<Rightarrow> False | Some e \<Rightarrow> content_eq e c) (mPool p)"

text \<open>Modelled from the spec: \<open>add\<close> (FormulaPool.tpp is not part of the sources).  If a
  node of the same shape is in the table the candidate is discarded and the existing
  node returned; otherwise the candidate gets the next id, its negation is constructed
  with the id after it, the two are linked to each other, and the candidate alone
  enters the table.\<close>

definition add ::
  "('c::linorder) FormulaPool \<Rightarrow> ('c \<Rightarrow> 'c) \<Rightarrow> addr \<Rightarrow> ('c FormulaPool \<times> addr) option" where
  "add p cneg formula =
     (case heap p formula of
        None \<Rightarrow> None
      | Some c \<Rightarrow>
          (case pool_find p c of
             Some a \<Rightarrow> map_option (\<lambda>q. (q, a)) (delete_obj p formula)
           | None \<Rightarrow>
               (let p1 = p\<lparr>mPool := mPool p @ [formula],
                            heap := (heap p)(formula \<mapsto> c\<lparr>mId := mIdAllocator p\<rparr>),
                            mIdAllocator := mIdAllocator p + 1\<rparr>
                in case createNegatedContent p1 cneg formula of
                     None \<Rightarrow> None
                   | Some (p2, n) \<Rightarrow>
                       (case (heap p2 formula, heap p2 n) of
                          (Some cf, Some cn) \<Rightarrow>
                            Some (p2\<lparr>heap := (heap p2)
                                       (formula \<mapsto> cf\<lparr>mNegation := Some n\<rparr>,
                                        n \<mapsto> cn\<lparr>mId := mIdAllocator p2,
                                                mNegation := Some formula\<rparr>),
                                     mIdAllocator := mIdAllocator p2 + 1\<rparr>,
                                  formula)
                        | _ \<Rightarrow> None))))"

text \<open>\<open>create(Variable::Arg)\<close>.\<close>

definition create_Variable ::
  "('c::linorder) FormulaPool \<Rightarrow> ('c \<Rightarrow> 'c) \<Rightarrow> nat \<Rightarrow> ('c FormulaPool \<times> addr) option" where
  "create_Variable p cneg v =
     (let (p1, a) = alloc p (FormulaContent_new BOOL (Variable v)) in add p1 cneg a)"

text \<open>\<open>create(FormulaType)\<close> for the two constants.\<close>

definition create_Bool :: "'c FormulaPool \<Rightarrow> FormulaType \<Rightarrow> addr option" where
  "create_Bool p t =
     (if \<not> (t = TRUE \<or> t = FALSE) then None
      else Some (if t = TRUE then trueFormula p else falseFormula p))"

text \<open>\<open>create(FormulaType, Formula&&)\<close>, the constructor with one operand.  It only
  reads the pool.  The cases that end in \<open>assert(false)\<close> are \<open>None\<close>.\<close>

definition create_unary :: "'c FormulaPool \<Rightarrow> FormulaType \<Rightarrow> addr \<Rightarrow> addr option" where
  "create_unary p t subFormula =
     (case t of
        NOT \<Rightarrow> (case heap p subFormula of None \<Rightarrow> None | Some c \<Rightarrow> mNegation c)
      | AND \<Rightarrow> Some subFormula
      | OR \<Rightarrow> Some subFormula
      | XOR \<Rightarrow> Some subFormula
      | IFF \<Rightarrow> create_Bool p TRUE
      | _ \<Rightarrow> None)"

text \<open>\<open>isBaseFormula(const Constraint&)\<close>.\<close>

definition isBaseFormula_Constraint :: "('c \<Rightarrow> 'c) \<Rightarrow> ('c::linorder) \<Rightarrow> bool" where
  "isBaseFormula_Constraint cneg c \<longleftrightarrow> c < cneg c"

text \<open>\<open>create(Constraint&&)\<close> with \<open>SIMPLIFY_FORMULA\<close> defined, as the header does;
  \<open>isConsistent\<close> is the constraint's own test (0: inconsistent, 1: tautology, any other
  value: neither).\<close>

definition create_Constraint ::
  "('c::linorder) FormulaPool \<Rightarrow> ('c \<Rightarrow> 'c) \<Rightarrow> ('c \<Rightarrow> nat) \<Rightarrow> 'c
   \<Rightarrow> ('c FormulaPool \<times> addr) option" where
  "create_Constraint p cneg isConsistent constraint =
     (if isConsistent constraint = 0 then Some (p, falseFormula p)
      else if isConsistent constraint = 1 then Some (p, trueFormula p)
      else if isBaseFormula_Constraint cneg constraint then
        (let (p1, a) = alloc p (FormulaContent_new CONSTRAINT (Constr constraint))
         in add p1 cneg a)
      else
        (let (p1, a) = alloc p (FormulaContent_new CONSTRAINT (Constr (cneg constraint)))
         in case add p1 cneg a of
              None \<Rightarrow> None
            | Some (p2, b) \<Rightarrow>
                (case heap p2 b of
                   None \<Rightarrow> None
                 | Some cb \<Rightarrow> map_option (\<lambda>n. (p2, n)) (mNegation cb))))"

text \<open>Modelled from the spec: the pool after construction (the constructor is in
  FormulaPool.tpp, not part of the sources).  TRUE and FALSE are created once, negate to
  each other, are both resident in the table and have their usage count pinned; the ids
  1 and 2 and the allocator value 3 are those of the constructor of the sibling pool
  \<open>AstPool\<close>.  The pinned count is 2 here.\<close>

definition FormulaPool_init :: "'c FormulaPool" where
  "FormulaPool_init =
     \<lparr>mIdAllocator = 3, mpTrue = 0, mpFalse = 1, mPool = [0, 1],
      mTseitinVars = Map.empty, mTseitinVarToFormula = Map.empty,
      heap = [0 \<mapsto> \<lparr>mId = 1, mType = TRUE, mContent = NoContent, mNegation = Some 1,
                     mUsages = 2, mDifficulty = 0\<rparr>,
              1 \<mapsto> \<lparr>mId = 2, mType = FALSE, mContent = NoContent, mNegation = Some 0,
                     mUsages = 2, mDifficulty = 0\<rparr>],
      nextAddr = 2\<rparr>"

subsection \<open>Invariants of the pool\<close>

text \<open>The negation of a node, read through its link.\<close>

definition negation :: "'c FormulaPool \<Rightarrow> addr \<Rightarrow> addr option" where
  "negation p a = (case heap p a of None \<Rightarrow> None | Some c \<Rightarrow> mNegation c)"

text \<open>Addresses from \<open>nextAddr\<close> on are unused: no live object and no entry of the
  table is there.\<close>

definition heap_inv :: "'c FormulaPool \<Rightarrow> bool" where
  "heap_inv p \<longleftrightarrow>
     (\<forall>a. heap p a \<noteq> None \<longrightarrow> a < nextAddr p) \<and> (\<forall>a\<in>set (mPool p). a < nextAddr p)"

text \<open>Every live node has a live negation, different from itself, that links back.\<close>

definition links_inv :: "'c FormulaPool \<Rightarrow> bool" where
  "links_inv p \<longleftrightarrow>
     (\<forall>a c. heap p a = Some c \<longrightarrow>
        (\<exists>n cn. mNegation c = Some n \<and> n \<noteq> a \<and> heap p n = Some cn \<and> mNegation cn = Some a))"

text \<open>The shape of a base node \<open>c\<close> with negation \<open>cn\<close>: two constraints of which the
  first is the smaller, or a node that is not a NOT node with a NOT node.\<close>

definition base_shape :: "('c::linorder) FormulaContent \<Rightarrow> 'c FormulaContent \<Rightarrow> bool" where
  "base_shape c cn \<longleftrightarrow>
     (if mType c = CONSTRAINT then
        mType cn = CONSTRAINT \<and>
        (case (mContent c, mContent cn) of (Constr k, Constr k') \<Rightarrow> k < k' | _ \<Rightarrow> False)
      else mType c \<noteq> NOT \<and> mType cn = NOT)"

text \<open>Of a node and its negation, unless they are TRUE and FALSE, exactly one is in the
  table, and the one in the table has the shape of a base node.\<close>

definition polarity_inv :: "('c::linorder) FormulaPool \<Rightarrow> bool" where
  "polarity_inv p \<longleftrightarrow>
     (\<forall>a c n cn. heap p a = Some c \<and> mNegation c = Some n \<and> heap p n = Some cn
                 \<and> \<not> (a = mpTrue p \<and> n = mpFalse p) \<and> \<not> (a = mpFalse p \<and> n = mpTrue p)
               \<longrightarrow>
        (a \<in> set (mPool p) \<longleftrightarrow> n \<notin> set (mPool p)) \<and>
        (a \<in> set (mPool p) \<longrightarrow> base_shape c cn))"

subsection \<open>Tseitin variables\<close>

text \<open>\<open>getTseitinVar\<close>; the result is a handle, whose construction registers a use.\<close>

definition getTseitinVar ::
  "('c::linorder) FormulaPool \<Rightarrow> addr \<Rightarrow> ('c FormulaPool \<times> addr) option" where
  "getTseitinVar p formula =
     (case mTseitinVars p formula of
        Some h \<Rightarrow> map_option (\<lambda>q. (q, h)) (Formula_handle p h)
      | None \<Rightarrow> map_option (\<lambda>q. (q, trueFormula p)) (Formula_handle p (trueFormula p)))"

text \<open>\<open>createTseitinVar\<close>; \<open>v\<close> is the variable that \<open>carl::freshBooleanVariable()\<close>
  hands out.\<close>

definition createTseitinVar ::
  "('c::linorder) FormulaPool \<Rightarrow> ('c \<Rightarrow> 'c) \<Rightarrow> addr \<Rightarrow> nat \<Rightarrow> ('c FormulaPool \<times> addr) option" where
  "createTseitinVar p cneg formula v =
     (case mTseitinVars p formula of
        Some h \<Rightarrow> map_option (\<lambda>q. (q, h)) (Formula_handle p h)
      | None \<Rightarrow>
          (case create_Variable p cneg v of
             None \<Rightarrow> None
           | Some (p1, hi) \<Rightarrow>
               (case (heap p1 formula, heap p1 hi) of
                  (Some cf, Some ch) \<Rightarrow>
                    (let p2 = p1\<lparr>heap := (heap p1)(hi \<mapsto> ch\<lparr>mDifficulty := mDifficulty cf\<rparr>),
                                  mTseitinVars := (mTseitinVars p1)(formula \<mapsto> hi),
                                  mTseitinVarToFormula := (mTseitinVarToFormula p1)(hi \<mapsto> formula)\<rparr>
                     in map_option (\<lambda>q. (q, hi)) (Formula_handle p2 hi))
                | _ \<Rightarrow> None)))"

subsection \<open>The multiset constructor\<close>

text \<open>
  \<open>create(const FormulasMulti&)\<close>.  A \<open>FormulasMulti\<close> is a \<open>std::multiset\<close> of
  handles and is read in ascending order: the argument is the list of its elements in
  that order.  \<open>Formulas\<close> is the corresponding set; \<open>insert\<close> with the hint
  \<open>end()\<close> puts the element at its place in the order unless it is there already.
  The pool itself is only touched by \<open>createNAry\<close>, which is not part of the sources
  (FormulaPool.tpp) and is a parameter \<open>cn\<close>, as are the state \<open>s\<close> it works on and
  the accessor \<open>falseF\<close> for the FALSE formula.  The counter is an \<open>int\<close> in the
  source; it stays below \<open>2^31\<close> for a multiset of fewer than \<open>2^31\<close> elements.
\<close>

definition Formulas_insert :: "('f::linorder) list \<Rightarrow> 'f \<Rightarrow> 'f list" where
  "Formulas_insert xs x = (if x \<in> set xs then xs else insort x xs)"

fun xor_loop :: "('f::linorder) \<Rightarrow> nat \<Rightarrow> 'f list \<Rightarrow> 'f list \<Rightarrow> 'f list" where
  "xor_loop lastSubFormula counter [] subFormulas =
     (if counter mod 2 = 1 then Formulas_insert subFormulas lastSubFormula else subFormulas)"
| "xor_loop lastSubFormula counter (subFormula # rest) subFormulas =
     (if lastSubFormula = subFormula then
        xor_loop lastSubFormula (counter + 1) rest subFormulas
      else
        xor_loop subFormula 1 rest
          (if counter mod 2 = 1 then Formulas_insert subFormulas lastSubFormula
           else subFormulas))"

definition create_FormulasMulti ::
  "('s \<Rightarrow> FormulaType \<Rightarrow> ('f::linorder) list \<Rightarrow> 's \<times> 'f) \<Rightarrow> ('s \<Rightarrow> 'f) \<Rightarrow> 's \<Rightarrow> 'f list
   \<Rightarrow> 's \<times> 'f" where
  "create_FormulasMulti cn falseF s subformulas =
     (case subformulas of
        [] \<Rightarrow> (s, falseF s)
      | [x] \<Rightarrow> (s, x)
      | x # y # rest \<Rightarrow> cn s XOR (xor_loop x 1 (y # rest) []))"

subsection \<open>Reachable pools and notions used in the statements\<close>

text \<open>The two outcomes of \<open>new\<close> followed by \<open>add\<close>: the pool only loses the address
  of the discarded candidate, or it is extended by a node \<open>c1\<close> at \<open>r\<close> and its negation
  \<open>c2\<close> at the next address.\<close>

definition pool_same :: "'c FormulaPool \<Rightarrow> 'c FormulaPool \<Rightarrow> bool" where
  "pool_same p p' \<longleftrightarrow>
     p' = \<lparr>mIdAllocator = mIdAllocator p, mpTrue = mpTrue p, mpFalse = mpFalse p,
           mPool = mPool p, mTseitinVars = mTseitinVars p,
           mTseitinVarToFormula = mTseitinVarToFormula p,
           heap = heap p, nextAddr = nextAddr p + 1\<rparr>"

definition pool_ext ::
  "'c FormulaPool \<Rightarrow> 'c FormulaPool \<Rightarrow> addr \<Rightarrow> 'c FormulaContent \<Rightarrow> 'c FormulaContent \<Rightarrow> bool" where
  "pool_ext p p' r c1 c2 \<longleftrightarrow>
     r = nextAddr p \<and>
     p' = \<lparr>mIdAllocator = mIdAllocator p + 2, mpTrue = mpTrue p, mpFalse = mpFalse p,
           mPool = mPool p @ [r], mTseitinVars = mTseitinVars p,
           mTseitinVarToFormula = mTseitinVarToFormula p,
           heap = (heap p)(r \<mapsto> c1, Suc r \<mapsto> c2), nextAddr = r + 2\<rparr> \<and>
     mNegation c1 = Some (Suc r) \<and> mNegation c2 = Some r \<and>
     mId c1 = mIdAllocator p \<and> mId c2 = mIdAllocator p + 1"

text \<open>The three invariants together.\<close>

definition pool_inv :: "('c::linorder) FormulaPool \<Rightarrow> bool" where
  "pool_inv p \<longleftrightarrow> heap_inv p \<and> links_inv p \<and> polarity_inv p"

text \<open>The pools that arise from the initial pool by the operations of the pool:
  interning a fresh node of any type other than NOT and CONSTRAINT (every
  \<open>add(new FormulaContent(...))\<close> of the header), the constraint constructor, creating
  and destroying a handle, and allocating a Tseitin variable.\<close>

inductive reachable ::
  "('c \<Rightarrow> 'c) \<Rightarrow> ('c \<Rightarrow> nat) \<Rightarrow> ('c::linorder) FormulaPool \<Rightarrow> bool"
  for cneg :: "'c \<Rightarrow> 'c" and isConsistent :: "'c \<Rightarrow> nat" where
  init: "reachable cneg isConsistent FormulaPool_init"
| intern: "reachable cneg isConsistent p \<Longrightarrow> t \<noteq> NOT \<Longrightarrow> t \<noteq> CONSTRAINT \<Longrightarrow>
     add (fst (alloc p (FormulaContent_new t x))) cneg (nextAddr p) = Some (p', r) \<Longrightarrow>
     reachable cneg isConsistent p'"
| constraint: "reachable cneg isConsistent p \<Longrightarrow>
     create_Constraint p cneg isConsistent k = Some (p', r) \<Longrightarrow>
     reachable cneg isConsistent p'"
| handle: "reachable cneg isConsistent p \<Longrightarrow> Formula_handle p e = Some p' \<Longrightarrow>
     reachable cneg isConsistent p'"
| release: "reachable cneg isConsistent p \<Longrightarrow> free p e = Some p' \<Longrightarrow>
     reachable cneg isConsistent p'"
| tseitin: "reachable cneg isConsistent p \<Longrightarrow> createTseitinVar p cneg f v = Some (p', h) \<Longrightarrow>
     reachable cneg isConsistent p'"

text \<open>An operation on the pool carried out \<open>n\<close> times in a row, stopping at the first
  failure.\<close>

fun repeat_op :: "('s \<Rightarrow> 's option) \<Rightarrow> nat \<Rightarrow> 's \<Rightarrow> 's option" where
  "repeat_op f 0 s = Some s"
| "repeat_op f (Suc n) s = (case f s of None \<Rightarrow> None | Some s' \<Rightarrow> repeat_op f n s')"

text \<open>The pool \<open>p\<close> with the usage counter of the node at \<open>b\<close> set to \<open>u\<close>.\<close>

definition with_usage :: "'c FormulaPool \<Rightarrow> addr \<Rightarrow> nat \<Rightarrow> 'c FormulaPool" where
  "with_usage p b u =
     (case heap p b of
        None \<Rightarrow> p
      | Some cb \<Rightarrow> p\<lparr>heap := (heap p)(b \<mapsto> cb\<lparr>mUsages := u\<rparr>)\<rparr>)"

text \<open>The Tseitin counterpart of a node: its placeholder if it has one, else the formula
  it is the placeholder of.  The counterpart is in use when its counter is not 1.\<close>

definition tseitin_counterpart :: "'c FormulaPool \<Rightarrow> addr \<Rightarrow> addr option" where
  "tseitin_counterpart p a =
     (case mTseitinVars p a of Some tv \<Rightarrow> Some tv | None \<Rightarrow> mTseitinVarToFormula p a)"

definition counterpart_in_use :: "'c FormulaPool \<Rightarrow> addr \<Rightarrow> bool" where
  "counterpart_in_use p a \<longleftrightarrow>
     (case tseitin_counterpart p a of
        None \<Rightarrow> False
      | Some k \<Rightarrow> (case heap p k of None \<Rightarrow> False | Some c \<Rightarrow> mUsages c \<noteq> 1))"

section \<open>The predecessor pool \<open>AstPool\<close>\<close>

text \<open>
  Modelled from the spec: the node class \<open>Ast\<close> (Ast.h is not part of the sources).  A
  node has an id, a type, a payload for atoms and its sub-asts.  Nodes are immutable once
  published, so a pointer to a node is the node itself, with its id: two pointers are
  equal exactly when the values are.  The type tags are those of \<open>FormulaType\<close>.
\<close>

datatype Ast = Ast (mId_Ast: "32 word") (getType: FormulaType) (payload: nat) (subasts: "Ast list")

text \<open>\<open>subast()\<close>, the operand of a node with one operand.\<close>

definition subast :: "Ast \<Rightarrow> Ast option" where
  "subast a = (case subasts a of [s] \<Rightarrow> Some s | _ \<Rightarrow> None)"

text \<open>Modelled from the spec: equality of nodes as used by the lookup table \<open>mAsts\<close> (type,
  sub-ast identities, payload); the id of the node itself, which a candidate does not
  have yet, takes no part.\<close>

definition ast_eq :: "Ast \<Rightarrow> Ast \<Rightarrow> bool" where
  "ast_eq a b \<longleftrightarrow> getType a = getType b \<and> payload a = payload b \<and> subasts a = subasts b"

text \<open>Modelled from the spec: \<open>new Ast(_ast)\<close>, the negation of a node, is the NOT node
  over it.\<close>

definition Ast_negated :: "Ast \<Rightarrow> Ast" where
  "Ast_negated a = Ast 0 NOT 0 [a]"

record AstPool =
  mIdAllocator_Ast :: "32 word"
  mpTrue_Ast :: Ast
  mpFalse_Ast :: Ast
  mAsts :: "Ast list"

text \<open>The constructor \<open>AstPool::AstPool\<close>.\<close>

definition AstPool_init :: AstPool where
  "AstPool_init =
     \<lparr>mIdAllocator_Ast = 3, mpTrue_Ast = Ast 1 TRUE 0 [], mpFalse_Ast = Ast 2 FALSE 0 [],
      mAsts = [Ast 1 TRUE 0 [], Ast 2 FALSE 0 []]\<rparr>"

definition set_id :: "Ast \<Rightarrow> 32 word \<Rightarrow> Ast" where
  "set_id a i = Ast i (getType a) (payload a) (subasts a)"

text \<open>\<open>addAstToPool\<close>.  The failing \<open>assert\<close> is the result \<open>None\<close>.\<close>

definition addAstToPool :: "AstPool \<Rightarrow> Ast \<Rightarrow> (AstPool \<times> Ast) option" where
  "addAstToPool p ast =
     (case find (\<lambda>e. ast_eq e ast) (mAsts p) of
        Some e \<Rightarrow> Some (p, e)
      | None \<Rightarrow>
          (let ast' = set_id ast (mIdAllocator_Ast p);
               p1 = p\<lparr>mAsts := mAsts p @ [ast'], mIdAllocator_Ast := mIdAllocator_Ast p + 1\<rparr>;
               astNegated = Ast_negated ast'
           in if find (\<lambda>e. ast_eq e astNegated) (mAsts p1) \<noteq> None then None
              else Some (p1\<lparr>mAsts := mAsts p1 @ [set_id astNegated (mIdAllocator_Ast p1)],
                           mIdAllocator_Ast := mIdAllocator_Ast p1 + 1\<rparr>, ast')))"

text \<open>A \<open>PointerSet\<close> is a \<open>std::set\<close> of pointers ordered by the ids of the nodes: the
  list of its elements in ascending order of id, with \<open>insert\<close> doing nothing when a
  node of the same id is present.\<close>

fun PointerSet_insert :: "Ast list \<Rightarrow> Ast \<Rightarrow> Ast list" where
  "PointerSet_insert [] a = [a]"
| "PointerSet_insert (x # xs) a =
     (if mId_Ast a < mId_Ast x then a # x # xs
      else if mId_Ast a = mId_Ast x then x # xs
      else x # PointerSet_insert xs a)"

definition PointerSet_of :: "Ast list \<Rightarrow> Ast list" where
  "PointerSet_of xs = fold (\<lambda>a s. PointerSet_insert s a) xs []"

text \<open>A pointer set is in strictly ascending order of id.\<close>

definition id_sorted :: "Ast list \<Rightarrow> bool" where
  "id_sorted s \<longleftrightarrow> sorted_wrt (\<lambda>a b. mId_Ast a < mId_Ast b) s"

text \<open>\<open>++iter\<close> from the element \<open>x\<close>: the first element of greater id, \<open>None\<close> for
  \<open>end()\<close>.\<close>

definition next_after :: "Ast \<Rightarrow> Ast list \<Rightarrow> Ast option" where
  "next_after x s = find (\<lambda>e. mId_Ast x < mId_Ast e) s"

text \<open>The set after flattening the element \<open>x\<close>: its sub-asts are inserted and \<open>x\<close> is
  erased.\<close>

definition flatten_at :: "Ast \<Rightarrow> Ast list \<Rightarrow> Ast list" where
  "flatten_at x s = remove1 x (fold (\<lambda>a s. PointerSet_insert s a) (subasts x) s)"

text \<open>The set after erasing the pair \<open>x\<close>, \<open>y\<close> (before TRUE is inserted).\<close>

definition erase_pair :: "Ast \<Rightarrow> Ast \<Rightarrow> Ast list \<Rightarrow> Ast list" where
  "erase_pair x y s = remove1 y (remove1 x s)"

text \<open>The test of the loop on two neighbours: \<open>y\<close> is the negation of \<open>x\<close>.\<close>

definition negation_pair :: "AstPool \<Rightarrow> Ast \<Rightarrow> Ast \<Rightarrow> bool" where
  "negation_pair p x y \<longleftrightarrow>
     (x = mpTrue_Ast p \<and> y = mpFalse_Ast p) \<or> (getType y = NOT \<and> subast y = Some x)"

text \<open>One pass through the body of the first loop of \<open>createAst\<close>, with the iterator
  at the element \<open>x\<close>.  The result is \<open>Inl r\<close> for \<open>return r\<close>, \<open>Inr (s', iter')\<close>
  for the set and the iterator the next pass starts with, and \<open>None\<close> for the failing
  \<open>assert\<close>.\<close>

definition createAst_step ::
  "AstPool \<Rightarrow> FormulaType \<Rightarrow> Ast list \<Rightarrow> Ast \<Rightarrow> (Ast + Ast list \<times> Ast option) option" where
  "createAst_step p t s x =
     (if getType x = t \<and> (t = AND \<or> t = OR) then
        Some (Inr (flatten_at x s, next_after x (flatten_at x s)))
      else
        (case next_after x s of
           None \<Rightarrow> Some (Inr (s, None))
         | Some y \<Rightarrow>
             if (x = mpTrue_Ast p \<and> y = mpFalse_Ast p)
                \<or> (getType y = NOT \<and> subast y = Some x) then
               (case t of
                  AND \<Rightarrow> Some (Inl (mpFalse_Ast p))
                | OR \<Rightarrow> Some (Inl (mpTrue_Ast p))
                | IFF \<Rightarrow> Some (Inl (mpFalse_Ast p))
                | XOR \<Rightarrow>
                    Some (Inr (PointerSet_insert (erase_pair x y s) (mpTrue_Ast p),
                               next_after y (erase_pair x y s)))
                | _ \<Rightarrow> None)
             else Some (Inr (s, Some y))))"

text \<open>The loop itself: its state is the set and the iterator; it ends when the iterator
  is \<open>end()\<close>, with \<open>Inr\<close> of the set, or at a \<open>return\<close>.\<close>

partial_function (option) createAst_loop ::
  "AstPool \<Rightarrow> FormulaType \<Rightarrow> Ast list \<times> Ast option \<Rightarrow> (Ast + Ast list) option" where
  "createAst_loop p t st =
     (case snd st of
        None \<Rightarrow> Some (Inr (fst st))
      | Some x \<Rightarrow>
          (case createAst_step p t (fst st) x of
             None \<Rightarrow> None
           | Some (Inl r) \<Rightarrow> Some (Inl r)
           | Some (Inr st') \<Rightarrow> createAst_loop p t st'))"

text \<open>Modelled from the spec: \<open>newAstWithOneSubast\<close> (AstPool.h is not part of the
  sources), as the constructor with one operand of the formula pool does it for the
  n-ary connectives: the operand itself for AND, OR and XOR, TRUE for IFF.\<close>

definition newAstWithOneSubast :: "AstPool \<Rightarrow> FormulaType \<Rightarrow> Ast \<Rightarrow> Ast option" where
  "newAstWithOneSubast p t a =
     (case t of
        AND \<Rightarrow> Some a
      | OR \<Rightarrow> Some a
      | XOR \<Rightarrow> Some a
      | IFF \<Rightarrow> Some (mpTrue_Ast p)
      | _ \<Rightarrow> None)"

text \<open>The part of \<open>createAst\<close> after the loop; \<open>simplify\<close> tells whether the macro
  \<open>SIMPLIFY_AST\<close> is defined.\<close>

definition createAst_finish ::
  "bool \<Rightarrow> AstPool \<Rightarrow> FormulaType \<Rightarrow> Ast list \<Rightarrow> (AstPool \<times> Ast) option" where
  "createAst_finish simplify p t s =
     (if s = [] then Some (p, mpFalse_Ast p)
      else
        (let iterToTrue = (hd s = mpTrue_Ast p);
             iterToFalse =
               (if hd s = mpTrue_Ast p then
                  (case tl s of [] \<Rightarrow> False | y # _ \<Rightarrow> y = mpFalse_Ast p)
                else hd s = mpFalse_Ast p);
             early =
               (if simplify \<and> t = AND then
                  (if iterToFalse then Some (mpFalse_Ast p)
                   else if (if iterToTrue then remove1 (mpTrue_Ast p) s else s) = []
                   then Some (mpTrue_Ast p) else None)
                else if simplify \<and> t = OR then
                  (if iterToTrue then Some (mpTrue_Ast p)
                   else if (if iterToFalse then remove1 (mpFalse_Ast p) s else s) = []
                   then Some (mpFalse_Ast p) else None)
                else if simplify \<and> t = IFF then
                  (if iterToFalse \<and> iterToTrue then Some (mpFalse_Ast p) else None)
                else None);
             s' =
               (if simplify \<and> t = AND \<and> iterToTrue then remove1 (mpTrue_Ast p) s
                else if simplify \<and> t = OR \<and> iterToFalse then remove1 (mpFalse_Ast p) s
                else s)
         in case early of
              Some r \<Rightarrow> Some (p, r)
            | None \<Rightarrow>
                (case s' of
                   [a] \<Rightarrow> map_option (\<lambda>r. (p, r)) (newAstWithOneSubast p t a)
                 | _ \<Rightarrow> addAstToPool p (Ast 0 t 0 s'))))"

text \<open>\<open>createAst\<close>.\<close>

definition createAst ::
  "bool \<Rightarrow> AstPool \<Rightarrow> FormulaType \<Rightarrow> Ast list \<Rightarrow> (AstPool \<times> Ast) option" where
  "createAst simplify p t subasts0 =
     (if \<not> (t = AND \<or> t = OR \<or> t = XOR \<or> t = IFF) then None
      else
        (case createAst_loop p t (subasts0, case subasts0 of [] \<Rightarrow> None | x # _ \<Rightarrow> Some x) of
           None \<Rightarrow> None
         | Some (Inl r) \<Rightarrow> Some (p, r)
         | Some (Inr s) \<Rightarrow> createAst_finish simplify p t s))"

section \<open>Concrete pools for evaluation\<close>

text \<open>TRUE and FALSE at addresses 0 and 1, a Boolean variable and its NOT node at 2 and
  3, a constraint and its negated constraint at 4 and 5; \<open>u\<close> is the usage counter of
  the variable node, \<open>w\<close> the one of the base constraint node.\<close>

definition ex_heap :: "nat \<Rightarrow> nat \<Rightarrow> addr \<rightharpoonup> nat FormulaContent" where
  "ex_heap u w =
     [0 \<mapsto> \<lparr>mId = 1, mType = TRUE, mContent = NoContent, mNegation = Some 1,
             mUsages = 2, mDifficulty = 0\<rparr>,
      1 \<mapsto> \<lparr>mId = 2, mType = FALSE, mContent = NoContent, mNegation = Some 0,
             mUsages = 2, mDifficulty = 0\<rparr>,
      2 \<mapsto> \<lparr>mId = 3, mType = BOOL, mContent = Variable 7, mNegation = Some 3,
             mUsages = u, mDifficulty = 0\<rparr>,
      3 \<mapsto> \<lparr>mId = 4, mType = NOT, mContent = Subformula 2, mNegation = Some 2,
             mUsages = 0, mDifficulty = 0\<rparr>,
      4 \<mapsto> \<lparr>mId = 5, mType = CONSTRAINT, mContent = Constr 10, mNegation = Some 5,
             mUsages = w, mDifficulty = 0\<rparr>,
      5 \<mapsto> \<lparr>mId = 6, mType = CONSTRAINT, mContent = Constr 11, mNegation = Some 4,
             mUsages = 0, mDifficulty = 0\<rparr>]"

definition ex_pool :: "nat \<Rightarrow> nat \<Rightarrow> nat FormulaPool" where
  "ex_pool u w =
     \<lparr>mIdAllocator = 7, mpTrue = 0, mpFalse = 1, mPool = [0, 1, 2, 4],
      mTseitinVars = Map.empty, mTseitinVarToFormula = Map.empty,
      heap = ex_heap u w, nextAddr = 6\<rparr>"

text \<open>A negation of constraints on the small pool: it swaps \<open>2k\<close> and \<open>2k+1\<close>.\<close>

definition ex_cneg :: "nat \<Rightarrow> nat" where
  "ex_cneg c = (if even c then c + 1 else c - 1)"

text \<open>A consistency test on the small pool that never folds a constraint.\<close>

definition ex_isConsistent :: "nat \<Rightarrow> nat" where
  "ex_isConsistent k = 2"

text \<open>A stand-in for \<open>createNAry\<close> on numbers, with 0 in the place of FALSE: no operand
  gives FALSE, one operand gives that operand, more operands give a number that encodes
  them.\<close>

definition ex_createNAry :: "unit \<Rightarrow> FormulaType \<Rightarrow> nat list \<Rightarrow> unit \<times> nat" where
  "ex_createNAry s t ys =
     (s, case ys of [] \<Rightarrow> 0 | [y] \<Rightarrow> y | _ \<Rightarrow> 100 + foldr (\<lambda>y r. y + 10 * r) ys 0)"

text \<open>A client session on the initial pool: a variable is created and held by a handle,
  and a Tseitin variable is allocated for it and held by a handle.\<close>

definition ex_session_held :: "(nat FormulaPool \<times> addr) option" where
  "ex_session_held =
     (case create_Variable FormulaPool_init ex_cneg 7 of
        None \<Rightarrow> None
      | Some (p1, f) \<Rightarrow>
          (case Formula_handle p1 f of
             None \<Rightarrow> None
           | Some p2 \<Rightarrow> createTseitinVar p2 ex_cneg f 9))"

text \<open>The session goes on: the handle on the Tseitin variable is destroyed.\<close>

definition ex_session :: "nat FormulaPool option" where
  "ex_session = (case ex_session_held of None \<Rightarrow> None | Some (p3, tv) \<Rightarrow> free p3 tv)"

text \<open>A small \<open>AstPool\<close>: two Boolean variables \<open>x\<close> and \<open>y\<close>, the conjunction of the
  two, and the negation of each.\<close>

definition ex_x :: Ast where "ex_x = Ast 3 BOOL 7 []"

definition ex_y :: Ast where "ex_y = Ast 5 BOOL 8 []"

definition ex_a :: Ast where "ex_a = Ast 7 AND 0 [ex_x, ex_y]"

definition ex_na :: Ast where "ex_na = Ast 8 NOT 0 [ex_a]"

definition ex_astpool :: AstPool where
  "ex_astpool =
     \<lparr>mIdAllocator_Ast = 9, mpTrue_Ast = Ast 1 TRUE 0 [], mpFalse_Ast = Ast 2 FALSE 0 [],
      mAsts = [Ast 1 TRUE 0 [], Ast 2 FALSE 0 [], ex_x, Ast 4 NOT 0 [ex_x],
               ex_y, Ast 6 NOT 0 [ex_y], ex_a, ex_na]\<rparr>"

section \<open>Properties\<close>

subsection \<open>Helper facts on release\<close>

lemma freeTseitinVariable_none:
  "mTseitinVars p d = None \<Longrightarrow> mTseitinVarToFormula p d = None \<Longrightarrow>
   freeTseitinVariable p d = Some (p, False)"
  by (simp add: freeTseitinVariable_def)

lemma erase_and_delete_gone:
  assumes "heap p tmp = Some ct" "mNegation ct = Some n" "heap p n = Some cn" "n \<noteq> tmp"
  shows "erase_and_delete p tmp =
           Some (p\<lparr>mPool := removeAll tmp (mPool p), heap := (heap p)(n := None, tmp := None)\<rparr>)"
  using assms by (simp add: erase_and_delete_def delete_obj_def pool_erase_def)

subsection \<open>Facts on the small pool\<close>

lemma ex_base2: "getBaseFormula (ex_pool u w) 2 = Some 2"
  by (simp add: getBaseFormula_def ex_pool_def ex_heap_def)
lemma ex_base4: "getBaseFormula (ex_pool u w) 4 = Some 4"
  by (simp add: getBaseFormula_def isBaseFormula_def ex_pool_def ex_heap_def)
lemma ex_base5: "getBaseFormula (ex_pool u w) 5 = Some 4"
  by (simp add: getBaseFormula_def isBaseFormula_def ex_pool_def ex_heap_def)
lemma ex_base3: "getBaseFormula (ex_pool u w) 3 = Some 2"
  by (simp add: getBaseFormula_def isBaseFormula_def ex_pool_def ex_heap_def)

lemma ex_heap_at:
  "heap (ex_pool u w) 2 = Some \<lparr>mId = 3, mType = BOOL, mContent = Variable 7,
      mNegation = Some 3, mUsages = u, mDifficulty = 0\<rparr>"
  "heap (ex_pool u w) 3 = Some \<lparr>mId = 4, mType = NOT, mContent = Subformula 2,
      mNegation = Some 2, mUsages = 0, mDifficulty = 0\<rparr>"
  "heap (ex_pool u w) 4 = Some \<lparr>mId = 5, mType = CONSTRAINT, mContent = Constr 10,
      mNegation = Some 5, mUsages = w, mDifficulty = 0\<rparr>"
  "heap (ex_pool u w) 5 = Some \<lparr>mId = 6, mType = CONSTRAINT, mContent = Constr 11,
      mNegation = Some 4, mUsages = 0, mDifficulty = 0\<rparr>"
  by (simp_all add: ex_pool_def ex_heap_def)

lemma ex_tseitin_empty:
  "mTseitinVars (ex_pool u w) a = None" "mTseitinVarToFormula (ex_pool u w) a = None"
  by (simp_all add: ex_pool_def)

subsection \<open>Usage counting: first registration and the deletion threshold\<close>

text \<open>
  Claim C10.  Let \<open>tmp\<close> be the base formula of \<open>elem\<close>.  If the counter of \<open>tmp\<close>
  is 0, \<open>reg\<close> sets it to 2 when \<open>elem\<close> is a CONSTRAINT node and to 1 for every
  other type.  \<open>free\<close> compares the decremented counter with 1: a counter of 1 drops
  to 0 and nothing is deleted, while a counter of 2 drops to 1 and (no Tseitin entry
  being involved) the base node leaves the table and both nodes are destroyed.
\<close>

theorem reg_double_increment_free_threshold:
  assumes base: "getBaseFormula p elem = Some tmp"
    and ht: "heap p tmp = Some ct"
    and he: "heap p elem = Some ce"
  shows "(mUsages ct = 0 \<longrightarrow>
            (\<exists>p'. reg p elem = Some p' \<and>
                  map_option mUsages (heap p' tmp)
                    = Some (if mType ce = CONSTRAINT then 2 else 1)))
       \<and> (mUsages ct = 1 \<longrightarrow>
            free p elem = Some (p\<lparr>heap := (heap p)(tmp \<mapsto> ct\<lparr>mUsages := 0\<rparr>)\<rparr>))
       \<and> (mUsages ct = 2 \<and> mNegation ct = Some n \<and> n \<noteq> tmp \<and> heap p n \<noteq> None
            \<and> mTseitinVars p tmp = None \<and> mTseitinVarToFormula p tmp = None
            \<and> mTseitinVars p n = None \<and> mTseitinVarToFormula p n = None \<longrightarrow>
            (\<exists>p'. free p elem = Some p' \<and> tmp \<notin> set (mPool p')
                  \<and> heap p' tmp = None \<and> heap p' n = None))"
proof (intro conjI impI)
  assume "mUsages ct = 0"
  then show "\<exists>p'. reg p elem = Some p' \<and>
      map_option mUsages (heap p' tmp) = Some (if mType ce = CONSTRAINT then 2 else 1)"
    using base ht he by (simp add: reg_def SIZE_MAX_def)
next
  assume "mUsages ct = 1"
  then show "free p elem = Some (p\<lparr>heap := (heap p)(tmp \<mapsto> ct\<lparr>mUsages := 0\<rparr>)\<rparr>)"
    using base ht by (simp add: free_def)
next
  assume a: "mUsages ct = 2 \<and> mNegation ct = Some n \<and> n \<noteq> tmp \<and> heap p n \<noteq> None
            \<and> mTseitinVars p tmp = None \<and> mTseitinVarToFormula p tmp = None
            \<and> mTseitinVars p n = None \<and> mTseitinVarToFormula p n = None"
  then obtain cn where cn: "heap p n = Some cn" by auto
  define p1 where "p1 = p\<lparr>heap := (heap p)(tmp \<mapsto> ct\<lparr>mUsages := 1\<rparr>)\<rparr>"
  have f1: "freeTseitinVariable p1 tmp = Some (p1, False)"
    using a by (intro freeTseitinVariable_none) (simp_all add: p1_def)
  have f2: "freeTseitinVariable p1 n = Some (p1, False)"
    using a by (intro freeTseitinVariable_none) (simp_all add: p1_def)
  have h1: "heap p1 tmp = Some (ct\<lparr>mUsages := 1\<rparr>)" by (simp add: p1_def)
  have e: "erase_and_delete p1 tmp =
      Some (p1\<lparr>mPool := removeAll tmp (mPool p1), heap := (heap p1)(n := None, tmp := None)\<rparr>)"
    using a cn by (intro erase_and_delete_gone[OF h1]) (simp_all add: p1_def)
  have "free p elem =
      Some (p1\<lparr>mPool := removeAll tmp (mPool p1), heap := (heap p1)(n := None, tmp := None)\<rparr>)"
    using base ht a f1 f2 h1 e unfolding p1_def by (simp add: free_def)
  then show "\<exists>p'. free p elem = Some p' \<and> tmp \<notin> set (mPool p')
                  \<and> heap p' tmp = None \<and> heap p' n = None"
    by simp
qed

theorem reg_double_increment_free_threshold_witness:
  "(\<exists>p'. reg (ex_pool 1 0) 5 = Some p' \<and> map_option mUsages (heap p' 4) = Some 2)
   \<and> (\<exists>p'. reg (ex_pool 0 0) 3 = Some p' \<and> map_option mUsages (heap p' 2) = Some 1)
   \<and> (\<exists>p'. free (ex_pool 1 0) 3 = Some p' \<and> 2 \<in> set (mPool p')
          \<and> map_option mUsages (heap p' 2) = Some 0)
   \<and> (\<exists>p'. free (ex_pool 2 0) 3 = Some p' \<and> 2 \<notin> set (mPool p')
          \<and> heap p' 2 = None \<and> heap p' 3 = None)"
proof -
  note t1 = reg_double_increment_free_threshold
              [OF ex_base5 [of 1 0] ex_heap_at(3) ex_heap_at(4), of 5]
  note t2 = reg_double_increment_free_threshold
              [OF ex_base3 [of 0 0] ex_heap_at(1) ex_heap_at(2), of 3]
  note t3 = reg_double_increment_free_threshold
              [OF ex_base3 [of 1 0] ex_heap_at(1) ex_heap_at(2), of 3]
  note t4 = reg_double_increment_free_threshold
              [OF ex_base3 [of 2 0] ex_heap_at(1) ex_heap_at(2), of 3]
  have a: "\<exists>p'. reg (ex_pool 1 0) 5 = Some p' \<and> map_option mUsages (heap p' 4) = Some 2"
    using t1 by simp
  have b: "\<exists>p'. reg (ex_pool 0 0) 3 = Some p' \<and> map_option mUsages (heap p' 2) = Some 1"
    using t2 by simp
  have c: "\<exists>p'. free (ex_pool 1 0) 3 = Some p' \<and> 2 \<in> set (mPool p')
          \<and> map_option mUsages (heap p' 2) = Some 0"
    using t3 by (simp add: ex_pool_def)
  have d: "\<exists>p'. free (ex_pool 2 0) 3 = Some p' \<and> 2 \<notin> set (mPool p')
          \<and> heap p' 2 = None \<and> heap p' 3 = None"
    using t4 ex_heap_at(2) [of 2 0] by (simp add: ex_tseitin_empty)
  from a b c d show ?thesis by blast
qed

subsection \<open>Tseitin bookkeeping\<close>

lemma reg_frame:
  assumes "reg p e = Some p'"
  shows "mPool p' = mPool p \<and> mIdAllocator p' = mIdAllocator p \<and> nextAddr p' = nextAddr p
       \<and> mTseitinVars p' = mTseitinVars p \<and> mTseitinVarToFormula p' = mTseitinVarToFormula p
       \<and> mpTrue p' = mpTrue p \<and> mpFalse p' = mpFalse p \<and> dom (heap p') = dom (heap p)"
  using assms
  by (auto simp: reg_def Let_def split: option.splits if_splits)

text \<open>
  Claim C9.  After a successful \<open>createTseitinVar\<close> for \<open>f\<close> the formula is mapped to
  the returned placeholder, and, when the placeholder was allocated by this call, the
  placeholder is mapped back to \<open>f\<close>.  Every later call for \<open>f\<close> does nothing but
  hand out one more handle on that same placeholder.  \<open>getTseitinVar\<close> returns the
  placeholder on record, or the TRUE formula when there is none, and allocates nothing:
  the set of live objects, the table, the id allocator and both maps stay as they are.
\<close>

theorem tseitin_bookkeeping:
  assumes "createTseitinVar p cneg f v = Some (p1, h1)"
  shows "mTseitinVars p1 f = Some h1
       \<and> (mTseitinVars p f = None \<longrightarrow> mTseitinVarToFormula p1 h1 = Some f)
       \<and> createTseitinVar p1 cneg f v' = map_option (\<lambda>q. (q, h1)) (reg p1 h1)
       \<and> (\<forall>g q h. getTseitinVar p g = Some (q, h) \<longrightarrow>
             h = (case mTseitinVars p g of Some t \<Rightarrow> t | None \<Rightarrow> trueFormula p)
           \<and> dom (heap q) = dom (heap p) \<and> mPool q = mPool p
           \<and> mIdAllocator q = mIdAllocator p \<and> nextAddr q = nextAddr p
           \<and> mTseitinVars q = mTseitinVars p
           \<and> mTseitinVarToFormula q = mTseitinVarToFormula p)"
proof -
  have a: "mTseitinVars p1 f = Some h1
       \<and> (mTseitinVars p f = None \<longrightarrow> mTseitinVarToFormula p1 h1 = Some f)"
    using assms
    by (auto simp: createTseitinVar_def Formula_handle_def Let_def
             split: option.splits dest!: reg_frame)
  then have b: "createTseitinVar p1 cneg f v' = map_option (\<lambda>q. (q, h1)) (reg p1 h1)"
    by (simp add: createTseitinVar_def Formula_handle_def)
  have c: "\<forall>g q h. getTseitinVar p g = Some (q, h) \<longrightarrow>
             h = (case mTseitinVars p g of Some t \<Rightarrow> t | None \<Rightarrow> trueFormula p)
           \<and> dom (heap q) = dom (heap p) \<and> mPool q = mPool p
           \<and> mIdAllocator q = mIdAllocator p \<and> nextAddr q = nextAddr p
           \<and> mTseitinVars q = mTseitinVars p
           \<and> mTseitinVarToFormula q = mTseitinVarToFormula p"
    by (auto simp: getTseitinVar_def Formula_handle_def split: option.splits dest!: reg_frame)
  from a b c show ?thesis by blast
qed

lemma ex_createTseitinVar:
  "\<exists>p1. createTseitinVar (ex_pool 1 0) ex_cneg 2 9 = Some (p1, 6)
      \<and> map_option mUsages (heap p1 6) = Some 2
      \<and> map_option mType (heap p1 6) = Some BOOL"
  by (simp add: createTseitinVar_def create_Variable_def alloc_def add_def pool_find_def
      content_eq_def FormulaContent_new_def createNegatedContent_def Formula_handle_def
      reg_def getBaseFormula_def delete_obj_def SIZE_MAX_def ex_pool_def ex_heap_def Let_def)

lemma ex_getTseitinVar:
  "\<exists>q. getTseitinVar (ex_pool 1 0) 4 = Some (q, 0)"
  by (simp add: getTseitinVar_def trueFormula_def Formula_handle_def reg_def
      getBaseFormula_def SIZE_MAX_def ex_pool_def ex_heap_def Let_def)

theorem tseitin_bookkeeping_witness:
  "\<exists>p1. createTseitinVar (ex_pool 1 0) ex_cneg 2 9 = Some (p1, 6)
      \<and> mTseitinVars p1 2 = Some 6 \<and> mTseitinVarToFormula p1 6 = Some 2
      \<and> (\<exists>p2. createTseitinVar p1 ex_cneg 2 12 = Some (p2, 6))
      \<and> (\<exists>q. getTseitinVar (ex_pool 1 0) 4 = Some (q, 0)
             \<and> mPool q = mPool (ex_pool 1 0)
             \<and> dom (heap q) = dom (heap (ex_pool 1 0)))"
proof -
  obtain p1 where c: "createTseitinVar (ex_pool 1 0) ex_cneg 2 9 = Some (p1, 6)"
    and u: "map_option mUsages (heap p1 6) = Some 2"
    and t: "map_option mType (heap p1 6) = Some BOOL"
    using ex_createTseitinVar by blast
  obtain q where g: "getTseitinVar (ex_pool 1 0) 4 = Some (q, 0)"
    using ex_getTseitinVar by blast
  note th = tseitin_bookkeeping [OF c, of 12]
  have r: "\<exists>p2. reg p1 6 = Some p2"
    using u t by (auto simp: reg_def getBaseFormula_def SIZE_MAX_def Let_def)
  have "mTseitinVars (ex_pool 1 0) 2 = None" by (simp add: ex_pool_def)
  with th g r c show ?thesis
    by (auto simp: trueFormula_def)
qed

subsection \<open>Parity of the multiset constructor\<close>

lemma Formulas_insert_snoc:
  "sorted acc \<Longrightarrow> \<forall>a\<in>set acc. a < l \<Longrightarrow> Formulas_insert acc l = acc @ [l]"
  by (auto simp: Formulas_insert_def intro!: sorted_insort_is_snoc)

lemma count_list_below:
  "sorted (x # xs) \<Longrightarrow> l < x \<Longrightarrow> count_list xs l = 0"
  by (auto simp: count_list_0_iff)

lemma xor_loop_parity:
  "sorted (l # rest) \<Longrightarrow> sorted acc \<Longrightarrow> distinct acc \<Longrightarrow> \<forall>a\<in>set acc. a < l \<Longrightarrow>
   sorted (xor_loop l c rest acc) \<and> distinct (xor_loop l c rest acc) \<and>
   (\<forall>x. count_list (xor_loop l c rest acc) x =
         count_list acc x + (if odd ((if x = l then c else 0) + count_list rest x) then 1 else 0))"
proof (induction rest arbitrary: l c acc)
  case Nil
  then show ?case
    by (auto simp: Formulas_insert_snoc sorted_append odd_iff_mod_2_eq_one count_list_0_iff)
next
  case (Cons x xs)
  show ?case
  proof (cases "l = x")
    case True
    have "sorted (l # xs)" using Cons.prems(1) by simp
    from Cons.IH [OF this Cons.prems(2,3,4), of "c + 1"] True
    show ?thesis by (auto simp: ac_simps)
  next
    case False
    then have lx: "l < x" using Cons.prems(1) by auto
    define acc' where "acc' = (if c mod 2 = 1 then Formulas_insert acc l else acc)"
    have acc': "acc' = (if odd c then acc @ [l] else acc)"
      using Cons.prems by (simp add: acc'_def Formulas_insert_snoc odd_iff_mod_2_eq_one)
    have s: "sorted acc'" "distinct acc'" "\<forall>a\<in>set acc'. a < x"
      using Cons.prems lx by (auto simp: acc' sorted_append)
    have sx: "sorted (x # xs)" using Cons.prems(1) by simp
    have l0: "count_list xs l = 0" using sx lx by (rule count_list_below)
    have cl: "count_list acc l = 0" using Cons.prems(4) by (auto simp: count_list_0_iff)
    have step: "xor_loop l c (x # xs) acc = xor_loop x 1 xs acc'"
      using False by (simp add: acc'_def)
    from Cons.IH [OF sx s, of 1] show ?thesis
      unfolding step using False l0 cl by (auto simp: acc')
  qed
qed

text \<open>
  Claim C7.  For a multiset of fewer than \<open>2^31\<close> formulas, read in ascending order:
  the empty multiset gives FALSE and a multiset of one element gives that element;
  from two elements on, the operands handed to the XOR constructor are in order, without
  repetition, and hold an element exactly when it occurs an odd number of times.  So
  \<open>XOR(a,a)\<close> is what the XOR constructor makes of no operand, \<open>XOR(a,a,a)\<close> what it
  makes of \<open>a\<close> alone (FALSE and \<open>a\<close> for a constructor that returns FALSE on no
  operand and unwraps a single one), and \<open>XOR(a,b,b,c,c,c)\<close> is \<open>XOR(a,c)\<close>.
\<close>

theorem xor_multiset_parity:
  assumes "sorted xs" and "length xs < 2 ^ 31"
  shows "create_FormulasMulti cn falseF s [] = (s, falseF s)
       \<and> create_FormulasMulti cn falseF s [a] = (s, a)
       \<and> (2 \<le> length xs \<longrightarrow>
            (\<exists>ys. sorted ys \<and> distinct ys
                 \<and> (\<forall>x. count_list ys x = (if odd (count_list xs x) then 1 else 0))
                 \<and> create_FormulasMulti cn falseF s xs = cn s XOR ys))
       \<and> (cn s XOR [] = (s, falseF s) \<longrightarrow>
            create_FormulasMulti cn falseF s [a, a] = (s, falseF s))
       \<and> (cn s XOR [a] = (s, a) \<longrightarrow>
            create_FormulasMulti cn falseF s [a, a, a] = (s, a))
       \<and> (a < b \<and> b < c \<longrightarrow>
            create_FormulasMulti cn falseF s [a, b, b, c, c, c] = cn s XOR [a, c]
          \<and> create_FormulasMulti cn falseF s [a, c] = cn s XOR [a, c])"
proof -
  have long: "\<exists>ys. sorted ys \<and> distinct ys
                 \<and> (\<forall>x. count_list ys x = (if odd (count_list xs x) then 1 else 0))
                 \<and> create_FormulasMulti cn falseF s xs = cn s XOR ys"
    if "2 \<le> length xs"
  proof -
    from that obtain x y rest where xs: "xs = x # y # rest"
      by (cases xs; cases "tl xs") auto
    have srt: "sorted (x # y # rest)" using assms(1) xs by simp
    have inv: "sorted (xor_loop x 1 (y # rest) []) \<and> distinct (xor_loop x 1 (y # rest) []) \<and>
        (\<forall>z. count_list (xor_loop x 1 (y # rest) []) z =
           count_list [] z
           + (if odd ((if z = x then 1 else 0) + count_list (y # rest) z) then 1 else 0))"
      by (rule xor_loop_parity [OF srt]) simp_all
    have cnt: "count_list (xor_loop x 1 (y # rest) []) z
               = (if odd (count_list xs z) then 1 else 0)" for z
      using inv by (simp add: xs)
    have "create_FormulasMulti cn falseF s xs = cn s XOR (xor_loop x 1 (y # rest) [])"
      by (simp add: create_FormulasMulti_def xs)
    with inv cnt show ?thesis by blast
  qed
  have two: "create_FormulasMulti cn falseF s [a, a] = cn s XOR []"
    by (simp add: create_FormulasMulti_def)
  have three: "create_FormulasMulti cn falseF s [a, a, a] = cn s XOR [a]"
    by (simp add: create_FormulasMulti_def Formulas_insert_def)
  have six: "create_FormulasMulti cn falseF s [a, b, b, c, c, c] = cn s XOR [a, c]"
    "create_FormulasMulti cn falseF s [a, c] = cn s XOR [a, c]"
    if "a < b \<and> b < c"
    using that by (auto simp: create_FormulasMulti_def Formulas_insert_def)
  show ?thesis
    using long two three six by (simp add: create_FormulasMulti_def)
qed

theorem xor_multiset_parity_witness:
  "create_FormulasMulti ex_createNAry (\<lambda>s. 0) () [] = ((), 0)
   \<and> create_FormulasMulti ex_createNAry (\<lambda>s. 0) () [1] = ((), 1)
   \<and> (\<exists>ys. sorted ys \<and> distinct ys
          \<and> (\<forall>x. count_list ys x = (if odd (count_list [1, 2, 2, 3, 3, 3 :: nat] x) then 1 else 0))
          \<and> create_FormulasMulti ex_createNAry (\<lambda>s. 0) () [1, 2, 2, 3, 3, 3]
              = ex_createNAry () XOR ys)
   \<and> create_FormulasMulti ex_createNAry (\<lambda>s. 0) () [1, 1] = ((), 0)
   \<and> create_FormulasMulti ex_createNAry (\<lambda>s. 0) () [1, 1, 1] = ((), 1)
   \<and> create_FormulasMulti ex_createNAry (\<lambda>s. 0) () [1, 2, 2, 3, 3, 3]
       = create_FormulasMulti ex_createNAry (\<lambda>s. 0) () [1, 3]"
proof -
  have s: "sorted [1, 2, 2, 3, 3, 3 :: nat]" by simp
  have l: "length [1, 2, 2, 3, 3, 3 :: nat] < 2 ^ 31" by simp
  have e: "ex_createNAry () XOR [] = ((), 0)" "ex_createNAry () XOR [1] = ((), 1)"
    by (simp_all add: ex_createNAry_def)
  have o: "(1::nat) < 2 \<and> (2::nat) < 3" by simp
  have l2: "2 \<le> length [1, 2, 2, 3, 3, 3 :: nat]" by simp
  note th = xor_multiset_parity [OF s l, of ex_createNAry "\<lambda>s. 0" "()" 1 2 3]
  have six: "create_FormulasMulti ex_createNAry (\<lambda>s. 0) () [1, 2, 2, 3, 3, 3]
       = create_FormulasMulti ex_createNAry (\<lambda>s. 0) () [1, 3]"
    using th o by presburger
  from th e l2 six show ?thesis by blast
qed

subsection \<open>What \<open>add\<close> computes\<close>

lemma add_found:
  assumes "heap p f = Some c" "pool_find p c = Some a"
  shows "add p cneg f = Some (p\<lparr>heap := (heap p)(f := None)\<rparr>, a)"
  using assms by (simp add: add_def delete_obj_def)

lemma add_new_plain:
  assumes h: "heap p f = Some c" and nf: "pool_find p c = None"
    and t: "mType c \<noteq> NOT" "mType c \<noteq> CONSTRAINT"
    and u: "mUsages c < SIZE_MAX" and fr: "nextAddr p \<noteq> f"
  shows "add p cneg f =
     Some (\<lparr>mIdAllocator = mIdAllocator p + 2, mpTrue = mpTrue p, mpFalse = mpFalse p,
            mPool = mPool p @ [f], mTseitinVars = mTseitinVars p,
            mTseitinVarToFormula = mTseitinVarToFormula p,
            heap = (heap p)
              (f \<mapsto> \<lparr>mId = mIdAllocator p, mType = mType c, mContent = mContent c,
                      mNegation = Some (nextAddr p), mUsages = mUsages c + 1,
                      mDifficulty = mDifficulty c\<rparr>,
               nextAddr p \<mapsto> \<lparr>mId = mIdAllocator p + 1, mType = NOT,
                      mContent = Subformula f, mNegation = Some f, mUsages = 0,
                      mDifficulty = 0\<rparr>),
            nextAddr = nextAddr p + 1\<rparr>, f)"
  using assms
  by (cases p; cases c)
     (simp add: add_def createNegatedContent_def Formula_handle_def reg_def
      getBaseFormula_def alloc_def FormulaContent_new_def Let_def fun_upd_twist)

lemma add_new_constraint:
  assumes h: "heap p f = Some c" and nf: "pool_find p c = None"
    and t: "mType c = CONSTRAINT" "mContent c = Constr k"
    and fr: "nextAddr p \<noteq> f"
  shows "add p cneg f =
     Some (\<lparr>mIdAllocator = mIdAllocator p + 2, mpTrue = mpTrue p, mpFalse = mpFalse p,
            mPool = mPool p @ [f], mTseitinVars = mTseitinVars p,
            mTseitinVarToFormula = mTseitinVarToFormula p,
            heap = (heap p)
              (f \<mapsto> \<lparr>mId = mIdAllocator p, mType = CONSTRAINT, mContent = Constr k,
                      mNegation = Some (nextAddr p), mUsages = mUsages c,
                      mDifficulty = mDifficulty c\<rparr>,
               nextAddr p \<mapsto> \<lparr>mId = mIdAllocator p + 1, mType = CONSTRAINT,
                      mContent = Constr (cneg k), mNegation = Some f, mUsages = 0,
                      mDifficulty = 0\<rparr>),
            nextAddr = nextAddr p + 1\<rparr>, f)"
  using assms
  by (cases p; cases c)
     (simp add: add_def createNegatedContent_def alloc_def FormulaContent_new_def Let_def
      fun_upd_twist)

subsection \<open>Publishing a fresh candidate\<close>

lemma pool_find_alloc:
  assumes "heap_inv p"
  shows "pool_find (fst (alloc p c)) c' = pool_find p c'"
proof -
  have "\<And>a. a \<in> set (mPool p) \<Longrightarrow> a \<noteq> nextAddr p"
    using assms unfolding heap_inv_def by (metis less_irrefl)
  then show ?thesis
    by (auto simp: pool_find_def alloc_def intro!: find_cong)
qed

lemma alloc_add_cases:
  assumes inv: "heap_inv p"
    and c: "c = FormulaContent_new t x" "t \<noteq> NOT" "t = CONSTRAINT \<longrightarrow> x = Constr k"
  shows "\<exists>p' r. add (fst (alloc p c)) cneg (nextAddr p) = Some (p', r) \<and>
        ((pool_find p c = Some r \<and> pool_same p p') \<or>
         (pool_find p c = None \<and>
          (\<exists>c1 c2. pool_ext p p' r c1 c2 \<and> mType c1 = t \<and> mContent c1 = x \<and>
             (if t = CONSTRAINT then mType c2 = CONSTRAINT \<and> mContent c2 = Constr (cneg k)
              else mType c2 = NOT \<and> mContent c2 = Subformula r))))"
proof -
  define p0 where "p0 = fst (alloc p c)"
  have h0: "heap p0 (nextAddr p) = Some c" and n0: "nextAddr p0 \<noteq> nextAddr p"
    by (simp_all add: p0_def alloc_def)
  have pf: "pool_find p0 c = pool_find p c"
    unfolding p0_def by (rule pool_find_alloc [OF inv])
  have fresh: "heap p (nextAddr p) = None"
    using inv by (auto simp: heap_inv_def)
  show ?thesis
  proof (cases "pool_find p c")
    case (Some a)
    have e: "add p0 cneg (nextAddr p) = Some (p0\<lparr>heap := (heap p0)(nextAddr p := None)\<rparr>, a)"
      using h0 Some pf by (intro add_found) simp_all
    have "pool_same p (p0\<lparr>heap := (heap p0)(nextAddr p := None)\<rparr>)"
      using fresh by (cases p) (simp add: pool_same_def p0_def alloc_def fun_upd_idem)
    with e Some show ?thesis unfolding p0_def by blast
  next
    case None
    show ?thesis
    proof (cases "t = CONSTRAINT")
      case True
      define c1 :: "'a FormulaContent" where
        "c1 = \<lparr>mId = mIdAllocator p0, mType = CONSTRAINT, mContent = Constr k,
                mNegation = Some (nextAddr p0), mUsages = mUsages c,
                mDifficulty = mDifficulty c\<rparr>"
      define c2 :: "'a FormulaContent" where
        "c2 = \<lparr>mId = mIdAllocator p0 + 1, mType = CONSTRAINT,
                mContent = Constr (cneg k), mNegation = Some (nextAddr p), mUsages = 0,
                mDifficulty = 0\<rparr>"
      define p' where "p' = \<lparr>mIdAllocator = mIdAllocator p0 + 2,
            mpTrue = mpTrue p0, mpFalse = mpFalse p0,
            mPool = mPool p0 @ [nextAddr p], mTseitinVars = mTseitinVars p0,
            mTseitinVarToFormula = mTseitinVarToFormula p0,
            heap = (heap p0)(nextAddr p \<mapsto> c1, nextAddr p0 \<mapsto> c2),
            nextAddr = nextAddr p0 + 1\<rparr>"
      have e: "add p0 cneg (nextAddr p) = Some (p', nextAddr p)"
        unfolding c1_def c2_def p'_def using h0 None pf n0 True c
        by (intro add_new_constraint) (simp_all add: FormulaContent_new_def)
      have "pool_ext p p' (nextAddr p) c1 c2"
        by (simp add: pool_ext_def p0_def alloc_def c1_def c2_def p'_def)
      moreover have "mType c1 = t" "mContent c1 = x" "mType c2 = CONSTRAINT"
        "mContent c2 = Constr (cneg k)"
        using True c by (simp_all add: c1_def c2_def)
      ultimately show ?thesis using None True e unfolding p0_def by auto
    next
      case False
      define c1 :: "'a FormulaContent" where
        "c1 = \<lparr>mId = mIdAllocator p0, mType = mType c, mContent = mContent c,
                mNegation = Some (nextAddr p0), mUsages = mUsages c + 1,
                mDifficulty = mDifficulty c\<rparr>"
      define c2 :: "'a FormulaContent" where
        "c2 = \<lparr>mId = mIdAllocator p0 + 1, mType = NOT,
                mContent = Subformula (nextAddr p), mNegation = Some (nextAddr p),
                mUsages = 0, mDifficulty = 0\<rparr>"
      define p' where "p' = \<lparr>mIdAllocator = mIdAllocator p0 + 2,
            mpTrue = mpTrue p0, mpFalse = mpFalse p0,
            mPool = mPool p0 @ [nextAddr p], mTseitinVars = mTseitinVars p0,
            mTseitinVarToFormula = mTseitinVarToFormula p0,
            heap = (heap p0)(nextAddr p \<mapsto> c1, nextAddr p0 \<mapsto> c2),
            nextAddr = nextAddr p0 + 1\<rparr>"
      have e: "add p0 cneg (nextAddr p) = Some (p', nextAddr p)"
        unfolding c1_def c2_def p'_def using h0 None pf n0 False c
        by (intro add_new_plain) (simp_all add: FormulaContent_new_def SIZE_MAX_def)
      have "pool_ext p p' (nextAddr p) c1 c2"
        by (simp add: pool_ext_def p0_def alloc_def c1_def c2_def p'_def)
      moreover have "mType c1 = t" "mContent c1 = x" "mType c2 = NOT"
        "mContent c2 = Subformula (nextAddr p)"
        using c(1) by (simp_all add: c1_def c2_def FormulaContent_new_def)
      ultimately show ?thesis using None False e unfolding p0_def by auto
    qed
  qed
qed

subsection \<open>Publishing keeps the invariants\<close>

lemma heap_inv_same: "heap_inv p \<Longrightarrow> pool_same p p' \<Longrightarrow> heap_inv p'"
  by (auto simp: heap_inv_def pool_same_def less_Suc_eq)

lemma links_inv_same: "links_inv p \<Longrightarrow> pool_same p p' \<Longrightarrow> links_inv p'"
  by (simp add: links_inv_def pool_same_def)

lemma polarity_inv_same: "polarity_inv p \<Longrightarrow> pool_same p p' \<Longrightarrow> polarity_inv p'"
  by (simp add: polarity_inv_def pool_same_def)

lemma pool_ext_fields:
  assumes "pool_ext p p' r c1 c2"
  shows "heap p' = (heap p)(r \<mapsto> c1, Suc r \<mapsto> c2)" "mPool p' = mPool p @ [r]"
    "nextAddr p' = r + 2" "mpTrue p' = mpTrue p" "mpFalse p' = mpFalse p"
    "r = nextAddr p" "mNegation c1 = Some (Suc r)" "mNegation c2 = Some r"
    "mIdAllocator p' = mIdAllocator p + 2" "mId c1 = mIdAllocator p"
    "mId c2 = mIdAllocator p + 1" "mTseitinVars p' = mTseitinVars p"
    "mTseitinVarToFormula p' = mTseitinVarToFormula p"
  using assms by (simp_all add: pool_ext_def)

lemma heap_inv_old:
  assumes "heap_inv p" "heap p a = Some c"
  shows "a \<noteq> nextAddr p" "a \<noteq> Suc (nextAddr p)"
  using assms unfolding heap_inv_def
  by (metis less_irrefl option.distinct(1), metis Suc_lessD less_irrefl option.distinct(1))

lemma heap_inv_ext:
  assumes "heap_inv p" "pool_ext p p' r c1 c2"
  shows "heap_inv p'"
  using assms(1) unfolding heap_inv_def pool_ext_fields [OF assms(2)]
  by (auto simp: pool_ext_fields(6) [OF assms(2)] less_Suc_eq)

lemma links_inv_ext:
  assumes hi: "heap_inv p" and li: "links_inv p" and ext: "pool_ext p p' r c1 c2"
  shows "links_inv p'"
  unfolding links_inv_def
proof (intro allI impI)
  fix a c
  assume a: "heap p' a = Some c"
  note f = pool_ext_fields [OF ext]
  consider "a = r" | "a = Suc r" | "a \<noteq> r" "a \<noteq> Suc r" by blast
  then show "\<exists>n cn. mNegation c = Some n \<and> n \<noteq> a \<and> heap p' n = Some cn
                 \<and> mNegation cn = Some a"
  proof cases
    case 1
    then show ?thesis using a f by simp
  next
    case 2
    then show ?thesis using a f by simp
  next
    case 3
    then have old: "heap p a = Some c" using a f by simp
    then obtain n cn where n: "mNegation c = Some n" "n \<noteq> a" "heap p n = Some cn"
      "mNegation cn = Some a"
      using li unfolding links_inv_def by blast
    have "n \<noteq> r" "n \<noteq> Suc r"
      using heap_inv_old [OF hi n(3)] f(6) by simp_all
    then have "heap p' n = Some cn" using n(3) f(1) by simp
    with n show ?thesis by blast
  qed
qed

lemma polarity_inv_ext:
  assumes hi: "heap_inv p" and li: "links_inv p" and po: "polarity_inv p"
    and ext: "pool_ext p p' r c1 c2"
    and ty: "base_shape c1 c2"
  shows "polarity_inv p'"
  unfolding polarity_inv_def
proof (intro allI impI, elim conjE)
  fix a c n cn
  assume a: "heap p' a = Some c" and n: "mNegation c = Some n" and hn: "heap p' n = Some cn"
    and tf: "\<not> (a = mpTrue p' \<and> n = mpFalse p')" "\<not> (a = mpFalse p' \<and> n = mpTrue p')"
  note f = pool_ext_fields [OF ext]
  have notin: "r \<notin> set (mPool p)" "Suc r \<notin> set (mPool p)"
    using hi f(6) unfolding heap_inv_def
    by (metis less_irrefl, metis Suc_lessD less_irrefl)
  consider "a = r" | "a = Suc r" | "a \<noteq> r" "a \<noteq> Suc r" by blast
  then show "(a \<in> set (mPool p') \<longleftrightarrow> n \<notin> set (mPool p')) \<and>
        (a \<in> set (mPool p') \<longrightarrow> base_shape c cn)"
  proof cases
    case 1
    then have "c = c1" "n = Suc r" "cn = c2" using a n hn f by simp_all
    then show ?thesis using 1 ty notin f(2) by simp
  next
    case 2
    then have "c = c2" "n = r" using a n f by simp_all
    then show ?thesis using 2 notin f(2) by simp
  next
    case 3
    then have old: "heap p a = Some c" using a f by simp
    then obtain n' cn' where n': "mNegation c = Some n'" "heap p n' = Some cn'"
      using li unfolding links_inv_def by blast
    have nn: "n' = n" using n n'(1) by simp
    have "n \<noteq> r" "n \<noteq> Suc r"
      using heap_inv_old [OF hi n'(2)] f(6) nn by simp_all
    then have oldn: "heap p n = Some cn" using hn f(1) by simp
    have "(a \<in> set (mPool p) \<longleftrightarrow> n \<notin> set (mPool p)) \<and>
        (a \<in> set (mPool p) \<longrightarrow> base_shape c cn)"
      using po [unfolded polarity_inv_def, rule_format, of a c n cn] old n oldn tf f(4,5)
      by simp
    then show ?thesis using 3 \<open>n \<noteq> r\<close> f(2) by simp
  qed
qed

lemma publish_inv:
  assumes inv: "pool_inv p"
    and c: "c = FormulaContent_new t x" "t \<noteq> NOT" "t = CONSTRAINT \<longrightarrow> x = Constr k \<and> k < cneg k"
  shows "\<exists>p' r cr. add (fst (alloc p c)) cneg (nextAddr p) = Some (p', r) \<and> pool_inv p'
           \<and> r \<in> set (mPool p') \<and> heap p' r = Some cr \<and> mType cr = t \<and> mContent cr = x"
proof -
  have hi: "heap_inv p" and li: "links_inv p" and po: "polarity_inv p"
    using inv by (simp_all add: pool_inv_def)
  from alloc_add_cases [OF hi c(1,2), of k cneg] c(3)
  obtain p' r where a: "add (fst (alloc p c)) cneg (nextAddr p) = Some (p', r)"
    and d: "(pool_find p c = Some r \<and> pool_same p p') \<or>
         (pool_find p c = None \<and>
          (\<exists>c1 c2. pool_ext p p' r c1 c2 \<and> mType c1 = t \<and> mContent c1 = x \<and>
             (if t = CONSTRAINT then mType c2 = CONSTRAINT \<and> mContent c2 = Constr (cneg k)
              else mType c2 = NOT \<and> mContent c2 = Subformula r)))"
    by blast
  from d show ?thesis
  proof
    assume s: "pool_find p c = Some r \<and> pool_same p p'"
    then have "pool_inv p'"
      using hi li po heap_inv_same links_inv_same polarity_inv_same
      unfolding pool_inv_def by blast
    moreover have "r \<in> set (mPool p)" "\<exists>cr. heap p r = Some cr \<and> content_eq cr c"
      using s unfolding pool_find_def
      by (auto simp: find_Some_iff split: option.splits)
    ultimately show ?thesis
      using a s c(1) by (auto simp: pool_same_def content_eq_def FormulaContent_new_def)
  next
    assume "pool_find p c = None \<and>
          (\<exists>c1 c2. pool_ext p p' r c1 c2 \<and> mType c1 = t \<and> mContent c1 = x \<and>
             (if t = CONSTRAINT then mType c2 = CONSTRAINT \<and> mContent c2 = Constr (cneg k)
              else mType c2 = NOT \<and> mContent c2 = Subformula r))"
    then obtain c1 c2 where e: "pool_ext p p' r c1 c2" and t1: "mType c1 = t"
      and x1: "mContent c1 = x"
      and t2: "if t = CONSTRAINT then mType c2 = CONSTRAINT \<and> mContent c2 = Constr (cneg k)
              else mType c2 = NOT \<and> mContent c2 = Subformula r"
      by blast
    have bs: "base_shape c1 c2"
      using t1 x1 t2 c(2,3) by (auto simp: base_shape_def)
    have "pool_inv p'"
      unfolding pool_inv_def
      using heap_inv_ext [OF hi e] links_inv_ext [OF hi li e] polarity_inv_ext [OF hi li po e bs]
      by simp
    moreover have "r \<in> set (mPool p')" "heap p' r = Some c1"
      using pool_ext_fields [OF e] by simp_all
    ultimately show ?thesis using a t1 x1 by blast
  qed
qed

lemma create_Variable_inv:
  assumes "pool_inv p"
  shows "\<exists>p' r cr. create_Variable p cneg v = Some (p', r) \<and> pool_inv p'
           \<and> r \<in> set (mPool p') \<and> heap p' r = Some cr \<and> mType cr = BOOL
           \<and> mContent cr = Variable v"
  using publish_inv [OF assms, of "FormulaContent_new BOOL (Variable v)" BOOL "Variable v"
      undefined cneg]
  by (simp add: create_Variable_def alloc_def)

lemma create_Constraint_inv:
  assumes inv: "pool_inv p" and cn: "\<And>k. cneg (cneg k) = k" "\<And>k. cneg k \<noteq> k"
  shows "\<exists>p' r. create_Constraint p cneg isConsistent k = Some (p', r) \<and> pool_inv p'"
proof -
  consider "isConsistent k = 0" | "isConsistent k = 1"
    | "isConsistent k \<noteq> 0" "isConsistent k \<noteq> 1" "k < cneg k"
    | "isConsistent k \<noteq> 0" "isConsistent k \<noteq> 1" "\<not> k < cneg k"
    by blast
  then show ?thesis
  proof cases
    case 1
    then show ?thesis using inv by (simp add: create_Constraint_def)
  next
    case 2
    then show ?thesis using inv by (simp add: create_Constraint_def)
  next
    case 3
    from publish_inv [OF inv, of "FormulaContent_new CONSTRAINT (Constr k)" CONSTRAINT
        "Constr k" k cneg] 3
    show ?thesis
      by (auto simp: create_Constraint_def isBaseFormula_Constraint_def alloc_def)
  next
    case 4
    then have lt: "cneg k < cneg (cneg k)" using cn [of k] by (simp add: cn(1)) 
    from publish_inv [OF inv, of "FormulaContent_new CONSTRAINT (Constr (cneg k))" CONSTRAINT
        "Constr (cneg k)" "cneg k" cneg] lt
    obtain p' r cr where a: "add (fst (alloc p (FormulaContent_new CONSTRAINT (Constr (cneg k)))))
        cneg (nextAddr p) = Some (p', r)" and i: "pool_inv p'" and h: "heap p' r = Some cr"
      by auto
    from i h obtain n where "mNegation cr = Some n"
      unfolding pool_inv_def links_inv_def by blast
    with a i h 4 show ?thesis
      by (auto simp: create_Constraint_def isBaseFormula_Constraint_def alloc_def)
  qed
qed

lemma reg_heap:
  assumes "reg p e = Some p'"
  shows "\<exists>b cb u. heap p b = Some cb \<and> heap p' = (heap p)(b \<mapsto> cb\<lparr>mUsages := u\<rparr>)"
  using assms
  by (auto simp: reg_def Let_def split: option.splits if_splits; blast)

lemma inv_transfer:
  assumes inv: "pool_inv p"
    and dom: "\<And>a. heap p' a = None \<longleftrightarrow> heap p a = None"
    and same: "\<And>a c c'. heap p a = Some c \<Longrightarrow> heap p' a = Some c' \<Longrightarrow>
                 mType c' = mType c \<and> mContent c' = mContent c \<and> mNegation c' = mNegation c"
    and f: "mPool p' = mPool p" "nextAddr p' = nextAddr p" "mpTrue p' = mpTrue p"
      "mpFalse p' = mpFalse p"
  shows "pool_inv p'"
proof -
  have hi: "heap_inv p" and li: "links_inv p" and po: "polarity_inv p"
    using inv by (simp_all add: pool_inv_def)
  have bk: "\<exists>c. heap p a = Some c \<and> mType c' = mType c \<and> mContent c' = mContent c
                 \<and> mNegation c' = mNegation c" if "heap p' a = Some c'" for a c'
  proof -
    from that dom [of a] obtain c where "heap p a = Some c" by (cases "heap p a") auto
    with same [OF this that] show ?thesis by blast
  qed
  have fw: "\<exists>c'. heap p' a = Some c' \<and> mType c' = mType c \<and> mContent c' = mContent c
                 \<and> mNegation c' = mNegation c" if "heap p a = Some c" for a c
  proof -
    from that dom [of a] obtain c' where "heap p' a = Some c'" by (cases "heap p' a") auto
    with same [OF that this] show ?thesis by blast
  qed
  have 1: "heap_inv p'"
    using hi unfolding heap_inv_def f dom by simp
  have 2: "links_inv p'"
    unfolding links_inv_def
  proof (intro allI impI)
    fix a c' assume "heap p' a = Some c'"
    from bk [OF this] obtain c where c: "heap p a = Some c" "mNegation c' = mNegation c"
      by blast
    from li c(1) obtain n cn where n: "mNegation c = Some n" "n \<noteq> a" "heap p n = Some cn"
      "mNegation cn = Some a" unfolding links_inv_def by blast
    from fw [OF n(3)] obtain cn' where "heap p' n = Some cn'" "mNegation cn' = mNegation cn"
      by blast
    with n c show "\<exists>n cn. mNegation c' = Some n \<and> n \<noteq> a \<and> heap p' n = Some cn
        \<and> mNegation cn = Some a" by simp
  qed
  have 3: "polarity_inv p'"
    unfolding polarity_inv_def
  proof (intro allI impI, elim conjE)
    fix a c' n cn'
    assume a: "heap p' a = Some c'" "mNegation c' = Some n" "heap p' n = Some cn'"
      "\<not> (a = mpTrue p' \<and> n = mpFalse p')" "\<not> (a = mpFalse p' \<and> n = mpTrue p')"
    from bk [OF a(1)] obtain c where c: "heap p a = Some c" "mType c' = mType c"
      "mContent c' = mContent c" "mNegation c' = mNegation c" by blast
    from bk [OF a(3)] obtain cn where cn: "heap p n = Some cn" "mType cn' = mType cn"
      "mContent cn' = mContent cn" by blast
    have "(a \<in> set (mPool p) \<longleftrightarrow> n \<notin> set (mPool p)) \<and>
          (a \<in> set (mPool p) \<longrightarrow> base_shape c cn)"
      using po [unfolded polarity_inv_def, rule_format, of a c n cn] c cn a f by simp
    moreover have "base_shape c' cn' = base_shape c cn"
      using c cn by (simp add: base_shape_def)
    ultimately show "(a \<in> set (mPool p') \<longleftrightarrow> n \<notin> set (mPool p')) \<and>
          (a \<in> set (mPool p') \<longrightarrow> base_shape c' cn')"
      using f by simp
  qed
  from 1 2 3 show ?thesis by (simp add: pool_inv_def)
qed

lemma reg_inv:
  assumes "pool_inv p" "reg p e = Some p'"
  shows "pool_inv p'"
proof -
  from reg_heap [OF assms(2)] obtain b cb u where
    h: "heap p b = Some cb" "heap p' = (heap p)(b \<mapsto> cb\<lparr>mUsages := u\<rparr>)" by blast
  show ?thesis
    using assms(1)
  proof (rule inv_transfer)
    show "heap p' a = None \<longleftrightarrow> heap p a = None" for a using h by simp
    show "mType c' = mType c \<and> mContent c' = mContent c \<and> mNegation c' = mNegation c"
      if "heap p a = Some c" "heap p' a = Some c'" for a c c'
      using that h by (cases "a = b") auto
  qed (use reg_frame [OF assms(2)] in simp_all)
qed

subsection \<open>Releasing keeps the negation links\<close>

lemma links_inv_heap: "heap p' = heap p \<Longrightarrow> links_inv p' = links_inv p"
  by (simp add: links_inv_def)

lemma links_inv_usage:
  assumes "links_inv p" "heap p b = Some cb"
  shows "links_inv (p\<lparr>heap := (heap p)(b \<mapsto> cb\<lparr>mUsages := u\<rparr>)\<rparr>)"
  unfolding links_inv_def
proof (intro allI impI)
  fix a c
  assume a: "heap (p\<lparr>heap := (heap p)(b \<mapsto> cb\<lparr>mUsages := u\<rparr>)\<rparr>) a = Some c"
  then obtain c0 where c0: "heap p a = Some c0" "mNegation c = mNegation c0"
    using assms(2) by (cases "a = b") auto
  from assms(1) c0(1) obtain n cn where n: "mNegation c0 = Some n" "n \<noteq> a"
    "heap p n = Some cn" "mNegation cn = Some a" unfolding links_inv_def by blast
  have "\<exists>cn'. heap (p\<lparr>heap := (heap p)(b \<mapsto> cb\<lparr>mUsages := u\<rparr>)\<rparr>) n = Some cn'
            \<and> mNegation cn' = Some a"
    using n assms(2) by (cases "n = b") auto
  with n c0 show "\<exists>n cn. mNegation c = Some n \<and> n \<noteq> a
     \<and> heap (p\<lparr>heap := (heap p)(b \<mapsto> cb\<lparr>mUsages := u\<rparr>)\<rparr>) n = Some cn
     \<and> mNegation cn = Some a" by auto
qed

lemma links_inv_erase_and_delete:
  assumes li: "links_inv p" and e: "erase_and_delete p tmp = Some p'"
  shows "links_inv p'"
proof -
  from e obtain ct where ct: "heap p tmp = Some ct"
    by (auto simp: erase_and_delete_def split: option.splits)
  from li ct obtain n cn where n: "mNegation ct = Some n" "n \<noteq> tmp" "heap p n = Some cn"
    "mNegation cn = Some tmp" unfolding links_inv_def by blast
  have p': "heap p' = (heap p)(n := None, tmp := None)"
    using e erase_and_delete_gone [OF ct n(1) n(3) n(2)] by auto
  show ?thesis
    unfolding links_inv_def
  proof (intro allI impI)
    fix a c
    assume "heap p' a = Some c"
    then have a: "a \<noteq> n" "a \<noteq> tmp" "heap p a = Some c"
      unfolding p' by (auto split: if_splits)
    from li a(3) obtain m cm where m: "mNegation c = Some m" "m \<noteq> a" "heap p m = Some cm"
      "mNegation cm = Some a" unfolding links_inv_def by blast
    have "m \<noteq> tmp" using m(3,4) ct n(1) a(1) by auto
    moreover have "m \<noteq> n" using m(3,4) n(3,4) a(2) by auto
    ultimately have "heap p' m = Some cm" using m(3) unfolding p' by simp
    with m show "\<exists>n cn. mNegation c = Some n \<and> n \<noteq> a \<and> heap p' n = Some cn
        \<and> mNegation cn = Some a" by blast
  qed
qed

lemma links_inv_freeTseitinVariable:
  assumes li: "links_inv p" and f: "freeTseitinVariable p d = Some (p', s)"
  shows "links_inv p'"
proof -
  have "p' = p \<or> (\<exists>q tmp. heap q = heap p \<and> erase_and_delete q tmp = Some p')"
    using f
    by (fastforce simp: freeTseitinVariable_def Let_def split: option.splits if_splits)
  then show ?thesis
  proof
    assume "p' = p" then show ?thesis using li by simp
  next
    assume "\<exists>q tmp. heap q = heap p \<and> erase_and_delete q tmp = Some p'"
    then obtain q tmp where q: "heap q = heap p" "erase_and_delete q tmp = Some p'" by blast
    have "links_inv q" using li links_inv_heap [OF q(1)] by simp
    then show ?thesis using q(2) by (rule links_inv_erase_and_delete)
  qed
qed

lemma links_inv_free:
  assumes li: "links_inv p" and f: "free p e = Some p'"
  shows "links_inv p'"
proof -
  from f obtain tmp ct where b: "getBaseFormula p e = Some tmp" "heap p tmp = Some ct"
    "mUsages ct > 0"
    by (auto simp: free_def split: option.splits if_splits)
  define p1 where "p1 = p\<lparr>heap := (heap p)(tmp \<mapsto> ct\<lparr>mUsages := mUsages ct - 1\<rparr>)\<rparr>"
  have l1: "links_inv p1" unfolding p1_def using li b(2) by (rule links_inv_usage)
  show ?thesis
  proof (cases "mUsages ct - 1 = 1")
    case False
    then have "p' = p1" using f b by (simp add: free_def p1_def)
    with l1 show ?thesis by simp
  next
    case True
    from f b True obtain p2 s1 ct2 n p3 s2 where
      s: "freeTseitinVariable p1 tmp = Some (p2, s1)" "heap p2 tmp = Some ct2"
         "mNegation ct2 = Some n" "freeTseitinVariable p2 n = Some (p3, s2)"
         "(if \<not> (s1 \<or> s2) then erase_and_delete p3 tmp else Some p3) = Some p'"
      unfolding free_def p1_def
      by (auto simp: Let_def split: option.splits if_splits prod.splits)
    have l2: "links_inv p2" using l1 s(1) by (rule links_inv_freeTseitinVariable)
    have l3: "links_inv p3" using l2 s(4) by (rule links_inv_freeTseitinVariable)
    show ?thesis
      using s(5) l3 links_inv_erase_and_delete by (auto split: if_splits)
  qed
qed

subsection \<open>Releasing keeps the invariants\<close>

lemma pool_inv_cong:
  assumes "heap p' = heap p" "mPool p' = mPool p" "nextAddr p' = nextAddr p"
    "mpTrue p' = mpTrue p" "mpFalse p' = mpFalse p"
  shows "pool_inv p' = pool_inv p"
  using assms by (simp add: pool_inv_def heap_inv_def links_inv_def polarity_inv_def)

lemma pool_inv_usage:
  assumes inv: "pool_inv p" and h: "heap p b = Some cb"
  shows "pool_inv (p\<lparr>heap := (heap p)(b \<mapsto> cb\<lparr>mUsages := u\<rparr>)\<rparr>)"
  using inv
proof (rule inv_transfer)
  show "heap (p\<lparr>heap := (heap p)(b \<mapsto> cb\<lparr>mUsages := u\<rparr>)\<rparr>) a = None \<longleftrightarrow> heap p a = None"
    for a using h by simp
  show "mType c' = mType c \<and> mContent c' = mContent c \<and> mNegation c' = mNegation c"
    if "heap p a = Some c" "heap (p\<lparr>heap := (heap p)(b \<mapsto> cb\<lparr>mUsages := u\<rparr>)\<rparr>) a = Some c'"
    for a c c'
    using that h by (cases "a = b") auto
qed simp_all

lemma pool_inv_erase_and_delete:
  assumes inv: "pool_inv p" and e: "erase_and_delete p tmp = Some p'"
  shows "pool_inv p'"
proof -
  have hi: "heap_inv p" and li: "links_inv p" and po: "polarity_inv p"
    using inv by (simp_all add: pool_inv_def)
  from e obtain ct where ct: "heap p tmp = Some ct"
    by (auto simp: erase_and_delete_def split: option.splits)
  from li ct obtain n cn where n: "mNegation ct = Some n" "n \<noteq> tmp" "heap p n = Some cn"
    "mNegation cn = Some tmp" unfolding links_inv_def by blast
  have p': "p' = p\<lparr>mPool := removeAll tmp (mPool p), heap := (heap p)(n := None, tmp := None)\<rparr>"
    using e erase_and_delete_gone [OF ct n(1) n(3) n(2)] by auto
  have 1: "heap_inv p'"
    using hi unfolding heap_inv_def p' by auto
  have 2: "links_inv p'"
    using li e by (rule links_inv_erase_and_delete)
  have 3: "polarity_inv p'"
    unfolding polarity_inv_def
  proof (intro allI impI, elim conjE)
    fix a c m cm
    assume a: "heap p' a = Some c" "mNegation c = Some m" "heap p' m = Some cm"
      "\<not> (a = mpTrue p' \<and> m = mpFalse p')" "\<not> (a = mpFalse p' \<and> m = mpTrue p')"
    then have old: "heap p a = Some c" "heap p m = Some cm" "a \<noteq> tmp" "m \<noteq> tmp"
      "\<not> (a = mpTrue p \<and> m = mpFalse p)" "\<not> (a = mpFalse p \<and> m = mpTrue p)"
      unfolding p' by (auto split: if_splits)
    from po [unfolded polarity_inv_def, rule_format, of a c m cm] old a(2)
    have "(a \<in> set (mPool p) \<longleftrightarrow> m \<notin> set (mPool p)) \<and>
          (a \<in> set (mPool p) \<longrightarrow> base_shape c cm)" by simp
    then show "(a \<in> set (mPool p') \<longleftrightarrow> m \<notin> set (mPool p')) \<and>
          (a \<in> set (mPool p') \<longrightarrow> base_shape c cm)"
      using old(3,4) unfolding p' by simp
  qed
  from 1 2 3 show ?thesis by (simp add: pool_inv_def)
qed

lemma pool_inv_freeTseitinVariable:
  assumes inv: "pool_inv p" and f: "freeTseitinVariable p d = Some (p', s)"
  shows "pool_inv p'"
proof -
  have "p' = p \<or> (\<exists>q tmp. heap q = heap p \<and> mPool q = mPool p \<and> nextAddr q = nextAddr p
          \<and> mpTrue q = mpTrue p \<and> mpFalse q = mpFalse p \<and> erase_and_delete q tmp = Some p')"
    using f
    by (fastforce simp: freeTseitinVariable_def Let_def split: option.splits if_splits)
  then show ?thesis
  proof
    assume "p' = p" then show ?thesis using inv by simp
  next
    assume "\<exists>q tmp. heap q = heap p \<and> mPool q = mPool p \<and> nextAddr q = nextAddr p
          \<and> mpTrue q = mpTrue p \<and> mpFalse q = mpFalse p \<and> erase_and_delete q tmp = Some p'"
    then obtain q tmp where q: "heap q = heap p" "mPool q = mPool p" "nextAddr q = nextAddr p"
      "mpTrue q = mpTrue p" "mpFalse q = mpFalse p" "erase_and_delete q tmp = Some p'" by blast
    have "pool_inv q" using inv pool_inv_cong [OF q(1-5)] by simp
    then show ?thesis using q(6) by (rule pool_inv_erase_and_delete)
  qed
qed

lemma free_inv:
  assumes inv: "pool_inv p" and f: "free p e = Some p'"
  shows "pool_inv p'"
proof -
  from f obtain tmp ct where b: "getBaseFormula p e = Some tmp" "heap p tmp = Some ct"
    "mUsages ct > 0"
    by (auto simp: free_def split: option.splits if_splits)
  define p1 where "p1 = p\<lparr>heap := (heap p)(tmp \<mapsto> ct\<lparr>mUsages := mUsages ct - 1\<rparr>)\<rparr>"
  have l1: "pool_inv p1" unfolding p1_def using inv b(2) by (rule pool_inv_usage)
  show ?thesis
  proof (cases "mUsages ct - 1 = 1")
    case False
    then have "p' = p1" using f b by (simp add: free_def p1_def)
    with l1 show ?thesis by simp
  next
    case True
    from f b True obtain p2 s1 ct2 n p3 s2 where
      s: "freeTseitinVariable p1 tmp = Some (p2, s1)" "heap p2 tmp = Some ct2"
         "mNegation ct2 = Some n" "freeTseitinVariable p2 n = Some (p3, s2)"
         "(if \<not> (s1 \<or> s2) then erase_and_delete p3 tmp else Some p3) = Some p'"
      unfolding free_def p1_def
      by (auto simp: Let_def split: option.splits if_splits prod.splits)
    have l2: "pool_inv p2" using l1 s(1) by (rule pool_inv_freeTseitinVariable)
    have l3: "pool_inv p3" using l2 s(4) by (rule pool_inv_freeTseitinVariable)
    show ?thesis
      using s(5) l3 pool_inv_erase_and_delete by (auto split: if_splits)
  qed
qed

lemma createTseitinVar_inv:
  assumes inv: "pool_inv p" and c: "createTseitinVar p cneg f v = Some (p', h)"
  shows "pool_inv p'"
proof (cases "mTseitinVars p f")
  case (Some t)
  then show ?thesis
    using c inv reg_inv by (auto simp: createTseitinVar_def Formula_handle_def)
next
  case None
  from create_Variable_inv [OF inv, of cneg v] obtain p1 hi where
    cv: "create_Variable p cneg v = Some (p1, hi)" and i1: "pool_inv p1" by blast
  from c None cv obtain cf ch where h: "heap p1 f = Some cf" "heap p1 hi = Some ch"
    and r: "reg (p1\<lparr>heap := (heap p1)(hi \<mapsto> ch\<lparr>mDifficulty := mDifficulty cf\<rparr>),
                  mTseitinVars := (mTseitinVars p1)(f \<mapsto> hi),
                  mTseitinVarToFormula := (mTseitinVarToFormula p1)(hi \<mapsto> f)\<rparr>) hi = Some p'"
    by (auto simp: createTseitinVar_def Formula_handle_def Let_def split: option.splits)
  have "pool_inv (p1\<lparr>heap := (heap p1)(hi \<mapsto> ch\<lparr>mDifficulty := mDifficulty cf\<rparr>),
                  mTseitinVars := (mTseitinVars p1)(f \<mapsto> hi),
                  mTseitinVarToFormula := (mTseitinVarToFormula p1)(hi \<mapsto> f)\<rparr>)"
    using i1
  proof (rule inv_transfer)
    fix a c c'
    assume "heap p1 a = Some c"
      "heap (p1\<lparr>heap := (heap p1)(hi \<mapsto> ch\<lparr>mDifficulty := mDifficulty cf\<rparr>),
                  mTseitinVars := (mTseitinVars p1)(f \<mapsto> hi),
                  mTseitinVarToFormula := (mTseitinVarToFormula p1)(hi \<mapsto> f)\<rparr>) a = Some c'"
    then show "mType c' = mType c \<and> mContent c' = mContent c \<and> mNegation c' = mNegation c"
      using h(2) by (cases "a = hi") auto
  qed (use h in simp_all)
  then show ?thesis using r by (rule reg_inv)
qed

lemma pool_inv_init: "pool_inv (FormulaPool_init :: ('c::linorder) FormulaPool)"
proof -
  have 1: "heap_inv (FormulaPool_init :: 'c FormulaPool)"
    by (auto simp: heap_inv_def FormulaPool_init_def split: if_splits)
  have 2: "links_inv (FormulaPool_init :: 'c FormulaPool)"
    by (auto simp: links_inv_def FormulaPool_init_def split: if_splits)
  have 3: "polarity_inv (FormulaPool_init :: 'c FormulaPool)"
    by (auto simp: polarity_inv_def FormulaPool_init_def split: if_splits)
  from 1 2 3 show ?thesis by (simp add: pool_inv_def)
qed

subsection \<open>The invariants hold in every reachable pool\<close>

lemma reachable_inv:
  assumes cn: "\<And>k. cneg (cneg k) = k" "\<And>k. cneg k \<noteq> k"
    and r: "reachable cneg isConsistent p"
  shows "pool_inv p"
  using r
proof (induction rule: reachable.induct)
  case init
  show ?case by (rule pool_inv_init)
next
  case (intern p t x p' r)
  from publish_inv [OF intern.IH, of "FormulaContent_new t x" t x undefined cneg] intern.hyps
  show ?case by auto
next
  case (constraint p k p' r)
  from create_Constraint_inv [OF constraint.IH cn, of isConsistent k] constraint.hyps
  show ?case by auto
next
  case (handle p e p')
  then show ?case using reg_inv by (auto simp: Formula_handle_def)
next
  case (release p e p')
  then show ?case using free_inv by blast
next
  case (tseitin p f v p' h)
  then show ?case using createTseitinVar_inv by blast
qed

lemma ex_cneg_props: "ex_cneg (ex_cneg k) = k" "ex_cneg k \<noteq> k"
  by (auto simp: ex_cneg_def elim: oddE)

lemma ex_create_Variable:
  "\<exists>p1. create_Variable (FormulaPool_init :: nat FormulaPool) ex_cneg 7 = Some (p1, 2)
      \<and> mPool p1 = [0, 1, 2] \<and> map_option mType (heap p1 2) = Some BOOL
      \<and> map_option mNegation (heap p1 2) = Some (Some 3)
      \<and> map_option mType (heap p1 3) = Some NOT
      \<and> map_option mNegation (heap p1 3) = Some (Some 2)
      \<and> mpTrue p1 = 0 \<and> mpFalse p1 = 1"
  by (simp add: create_Variable_def alloc_def add_def pool_find_def
      content_eq_def FormulaContent_new_def createNegatedContent_def Formula_handle_def
      reg_def getBaseFormula_def delete_obj_def SIZE_MAX_def FormulaPool_init_def Let_def)

lemma create_Variable_intern:
  "create_Variable p cneg v
     = add (fst (alloc p (FormulaContent_new BOOL (Variable v)))) cneg (nextAddr p)"
  by (simp add: create_Variable_def alloc_def)

lemma ex_reachable:
  "\<exists>p1. reachable ex_cneg ex_isConsistent p1
      \<and> mPool p1 = [0, 1, 2] \<and> map_option mType (heap p1 2) = Some BOOL
      \<and> map_option mNegation (heap p1 2) = Some (Some 3)
      \<and> map_option mType (heap p1 3) = Some NOT
      \<and> map_option mNegation (heap p1 3) = Some (Some 2)
      \<and> mpTrue p1 = 0 \<and> mpFalse p1 = 1"
proof -
  from ex_create_Variable obtain p1 where
    c: "create_Variable (FormulaPool_init :: nat FormulaPool) ex_cneg 7 = Some (p1, 2)"
    and f: "mPool p1 = [0, 1, 2] \<and> map_option mType (heap p1 2) = Some BOOL
      \<and> map_option mNegation (heap p1 2) = Some (Some 3)
      \<and> map_option mType (heap p1 3) = Some NOT
      \<and> map_option mNegation (heap p1 3) = Some (Some 2)
      \<and> mpTrue p1 = 0 \<and> mpFalse p1 = 1"
    by blast
  have "reachable ex_cneg ex_isConsistent p1"
    by (rule reachable.intern [OF reachable.init _ _ c [unfolded create_Variable_intern]])
       simp_all
  with f show ?thesis by blast
qed

subsection \<open>Negation is an involution without fixed point\<close>

text \<open>
  Claim C3.  In every pool that arises from the initial one, for a constraint negation
  that is an involution without fixed point, every live node \<open>f\<close> has a negation
  different from \<open>f\<close> whose own negation is \<open>f\<close>.  The constructor with one operand,
  called for NOT, returns that stored negation; it only reads the pool, so no node is
  published.
\<close>

theorem negation_involution:
  assumes "\<And>k. cneg (cneg k) = k" and "\<And>k. cneg k \<noteq> k"
    and "reachable cneg isConsistent p" and "heap p f \<noteq> None"
  shows "(\<exists>n. negation p f = Some n \<and> n \<noteq> f \<and> negation p n = Some f)
       \<and> create_unary p NOT f = negation p f"
proof -
  have "links_inv p"
    using reachable_inv [OF assms(1,2,3)] by (simp add: pool_inv_def)
  moreover obtain c where "heap p f = Some c" using assms(4) by blast
  ultimately show ?thesis
    unfolding links_inv_def negation_def create_unary_def by fastforce
qed

theorem negation_involution_witness:
  "\<exists>p. reachable ex_cneg ex_isConsistent p \<and> heap p 2 \<noteq> None
      \<and> negation p 2 = Some 3 \<and> negation p 3 = Some 2 \<and> create_unary p NOT 2 = Some 3"
proof -
  from ex_reachable obtain p where r: "reachable ex_cneg ex_isConsistent p"
    and h: "map_option mNegation (heap p 2) = Some (Some 3)" by blast
  have l: "heap p 2 \<noteq> None" using h by auto
  have n: "negation p 2 = Some 3" using h by (auto simp: negation_def)
  from negation_involution [OF ex_cneg_props r l] n r l show ?thesis by auto
qed

subsection \<open>The base formula of a pair\<close>

lemma base_shape_constr:
  "base_shape c cn \<Longrightarrow> mType c = CONSTRAINT \<Longrightarrow>
   \<exists>k k'. mContent c = Constr k \<and> mContent cn = Constr k' \<and> k < k'"
  by (cases "mContent c"; cases "mContent cn") (simp_all add: base_shape_def)

text \<open>
  Claim C4, for the nodes published by interning.  In every pool that arises from the
  initial one, for a constraint negation that is an involution without fixed point: of a
  live node \<open>a\<close> other than TRUE and FALSE and its negation \<open>n\<close>, exactly one is in the
  lookup table, and \<open>getBaseFormula\<close> returns that one.  If it is \<open>a\<close> and \<open>a\<close> is
  a constraint node, the constraint of \<open>a\<close> is less than the one of \<open>n\<close>; a node that
  is not a constraint node is in the table exactly when it is not a NOT node, so the base
  of a NOT node is its negation.
\<close>

theorem base_polarity:
  assumes "\<And>k. cneg (cneg k) = k" and "\<And>k. cneg k \<noteq> k"
    and "reachable cneg isConsistent p" and "heap p a = Some c"
    and "a \<noteq> mpTrue p" and "a \<noteq> mpFalse p"
  shows "\<exists>n cn. mNegation c = Some n \<and> heap p n = Some cn
       \<and> (a \<in> set (mPool p) \<longleftrightarrow> n \<notin> set (mPool p))
       \<and> getBaseFormula p a = Some (if a \<in> set (mPool p) then a else n)
       \<and> (mType c = CONSTRAINT \<and> a \<in> set (mPool p) \<longrightarrow>
            (\<exists>k k'. mContent c = Constr k \<and> mContent cn = Constr k' \<and> k < k'))
       \<and> (mType c \<noteq> CONSTRAINT \<longrightarrow> (a \<in> set (mPool p) \<longleftrightarrow> mType c \<noteq> NOT))
       \<and> (mType c = NOT \<longrightarrow> getBaseFormula p a = Some n)"
proof -
  have inv: "links_inv p" "polarity_inv p"
    using reachable_inv [OF assms(1,2,3)] by (simp_all add: pool_inv_def)
  from inv(1) assms(4) obtain n cn where n: "mNegation c = Some n" "n \<noteq> a"
    "heap p n = Some cn" "mNegation cn = Some a"
    unfolding links_inv_def by blast
  have pa: "(a \<in> set (mPool p) \<longleftrightarrow> n \<notin> set (mPool p)) \<and>
            (a \<in> set (mPool p) \<longrightarrow> base_shape c cn)"
    using inv(2) [unfolded polarity_inv_def, rule_format, of a c n cn] assms(4,5,6) n
    by simp
  have pn: "n \<in> set (mPool p) \<longrightarrow> base_shape cn c"
    using inv(2) [unfolded polarity_inv_def, rule_format, of n cn a c] assms(4,5,6) n
    by simp
  have shape: "(if a \<in> set (mPool p) then base_shape c cn else base_shape cn c)"
    using pa pn by auto
  have g: "getBaseFormula p a = Some (if a \<in> set (mPool p) then a else n)"
    using shape assms(4) n
    by (auto simp: getBaseFormula_def isBaseFormula_def base_shape_def
             split: if_splits Content.splits)
  have k: "mType c = CONSTRAINT \<and> a \<in> set (mPool p) \<longrightarrow>
            (\<exists>k k'. mContent c = Constr k \<and> mContent cn = Constr k' \<and> k < k')"
    using pa base_shape_constr by blast
  have t: "mType c \<noteq> CONSTRAINT \<longrightarrow> (a \<in> set (mPool p) \<longleftrightarrow> mType c \<noteq> NOT)"
    using shape by (auto simp: base_shape_def split: if_splits)
  have nt: "mType c = NOT \<longrightarrow> getBaseFormula p a = Some n"
    using assms(4) n by (simp add: getBaseFormula_def)
  from n pa g k t nt show ?thesis by blast
qed

lemma ex_reachable2:
  "\<exists>p1 p2. create_Variable (FormulaPool_init :: nat FormulaPool) ex_cneg 7 = Some (p1, 2)
      \<and> create_Constraint p1 ex_cneg ex_isConsistent 11 = Some (p2, 5)
      \<and> mPool p2 = [0, 1, 2, 4] \<and> mpTrue p2 = 0 \<and> mpFalse p2 = 1
      \<and> map_option mType (heap p2 3) = Some NOT
      \<and> map_option mType (heap p2 4) = Some CONSTRAINT
      \<and> map_option mContent (heap p2 4) = Some (Constr 10)
      \<and> map_option mType (heap p2 5) = Some CONSTRAINT
      \<and> map_option mNegation (heap p2 3) = Some (Some 2)
      \<and> map_option mNegation (heap p2 4) = Some (Some 5)
      \<and> map_option mNegation (heap p2 5) = Some (Some 4)"
  by (simp add: create_Variable_def create_Constraint_def isBaseFormula_Constraint_def
      ex_isConsistent_def ex_cneg_def alloc_def add_def pool_find_def
      content_eq_def FormulaContent_new_def createNegatedContent_def Formula_handle_def
      reg_def getBaseFormula_def delete_obj_def SIZE_MAX_def FormulaPool_init_def Let_def)

theorem base_polarity_witness:
  "\<exists>p. reachable ex_cneg ex_isConsistent p \<and> mPool p = [0, 1, 2, 4]
      \<and> getBaseFormula p 3 = Some 2 \<and> getBaseFormula p 4 = Some 4
      \<and> getBaseFormula p 5 = Some 4
      \<and> (\<exists>c cn k k'. heap p 4 = Some c \<and> heap p 5 = Some cn \<and> mContent c = Constr k
             \<and> mContent cn = Constr k' \<and> k < k')"
proof -
  from ex_reachable2 obtain p1 p where
    c1: "create_Variable (FormulaPool_init :: nat FormulaPool) ex_cneg 7 = Some (p1, 2)"
    and c2: "create_Constraint p1 ex_cneg ex_isConsistent 11 = Some (p, 5)"
    and f: "mPool p = [0, 1, 2, 4]" "mpTrue p = 0" "mpFalse p = 1"
      "map_option mType (heap p 3) = Some NOT"
      "map_option mType (heap p 4) = Some CONSTRAINT"
      "map_option mType (heap p 5) = Some CONSTRAINT"
      "map_option mNegation (heap p 3) = Some (Some 2)"
      "map_option mNegation (heap p 4) = Some (Some 5)"
      "map_option mNegation (heap p 5) = Some (Some 4)"
    by blast
  have r1: "reachable ex_cneg ex_isConsistent p1"
    by (rule reachable.intern [OF reachable.init _ _ c1 [unfolded create_Variable_intern]])
       simp_all
  have r: "reachable ex_cneg ex_isConsistent p"
    by (rule reachable.constraint [OF r1 c2])
  from f obtain c3 c4 c5 where h: "heap p 3 = Some c3" "heap p 4 = Some c4" "heap p 5 = Some c5"
    by auto
  have t: "mType c3 = NOT" "mType c4 = CONSTRAINT" "mType c5 = CONSTRAINT"
    "mNegation c3 = Some 2" "mNegation c4 = Some 5" "mNegation c5 = Some 4"
    using f h by simp_all
  have ne: "(3::nat) \<noteq> mpTrue p" "(3::nat) \<noteq> mpFalse p" "(4::nat) \<noteq> mpTrue p"
    "(4::nat) \<noteq> mpFalse p" "(5::nat) \<noteq> mpTrue p" "(5::nat) \<noteq> mpFalse p"
    using f by simp_all
  note b3 = base_polarity [OF ex_cneg_props r h(1) ne(1,2)]
  note b4 = base_polarity [OF ex_cneg_props r h(2) ne(3,4)]
  note b5 = base_polarity [OF ex_cneg_props r h(3) ne(5,6)]
  have g3: "getBaseFormula p 3 = Some 2" using b3 t f(1) by auto
  have g4: "getBaseFormula p 4 = Some 4" using b4 t f(1) by auto
  have g5: "getBaseFormula p 5 = Some 4" using b5 t f(1) by auto
  have k: "\<exists>c cn k k'. heap p 4 = Some c \<and> heap p 5 = Some cn \<and> mContent c = Constr k
             \<and> mContent cn = Constr k' \<and> k < k'"
    using b4 t f(1) h by auto
  from r f(1) g3 g4 g5 k show ?thesis by blast
qed

text \<open>The TRUE/FALSE pair is the one pair of which both nodes are in the table: the two
  constants are created with the pool, not published by interning.\<close>

lemma initial_pair_both_in_table:
  "reachable ex_cneg ex_isConsistent (FormulaPool_init :: nat FormulaPool)
   \<and> negation (FormulaPool_init :: nat FormulaPool) (mpTrue (FormulaPool_init :: nat FormulaPool))
       = Some (mpFalse (FormulaPool_init :: nat FormulaPool))
   \<and> mpTrue (FormulaPool_init :: nat FormulaPool) \<in> set (mPool (FormulaPool_init :: nat FormulaPool))
   \<and> mpFalse (FormulaPool_init :: nat FormulaPool) \<in> set (mPool (FormulaPool_init :: nat FormulaPool))"
  using reachable.init [of ex_cneg ex_isConsistent]
  by (simp add: FormulaPool_init_def negation_def)

lemmas ex_eval_defs =
  createTseitinVar_def create_Variable_def alloc_def add_def
  pool_find_def content_eq_def FormulaContent_new_def createNegatedContent_def
  Formula_handle_def reg_def free_def freeTseitinVariable_def erase_and_delete_def
  pool_erase_def getBaseFormula_def delete_obj_def SIZE_MAX_def FormulaPool_init_def
  Let_def

lemma ex_session_held_facts:
  "\<exists>q. ex_session_held = Some (q, 4) \<and> mPool q = [0, 1, 2, 4]
     \<and> mTseitinVars q 2 = Some 4 \<and> mTseitinVarToFormula q 4 = Some 2
     \<and> mTseitinVars q 3 = None \<and> mTseitinVarToFormula q 3 = None
     \<and> mTseitinVars q 4 = None
     \<and> mTseitinVars q 5 = None \<and> mTseitinVarToFormula q 5 = None
     \<and> map_option mUsages (heap q 2) = Some 2
     \<and> map_option mUsages (heap q 4) = Some 2
     \<and> map_option mNegation (heap q 2) = Some (Some 3)
     \<and> map_option mNegation (heap q 4) = Some (Some 5)
     \<and> getBaseFormula q 2 = Some 2 \<and> getBaseFormula q 4 = Some 4
     \<and> heap q 3 \<noteq> None \<and> heap q 5 \<noteq> None"
  by (simp add: ex_session_held_def ex_eval_defs)

lemma ex_session_facts:
  "\<exists>q. ex_session = Some q \<and> mPool q = [0, 1, 2, 4]
     \<and> mTseitinVars q 2 = Some 4 \<and> mTseitinVarToFormula q 4 = Some 2
     \<and> mTseitinVars q 3 = None \<and> mTseitinVarToFormula q 3 = None
     \<and> map_option mUsages (heap q 2) = Some 2
     \<and> map_option mUsages (heap q 4) = Some 1
     \<and> map_option mNegation (heap q 2) = Some (Some 3)
     \<and> map_option mNegation (heap q 4) = Some (Some 5)
     \<and> getBaseFormula q 2 = Some 2
     \<and> heap q 3 \<noteq> None \<and> heap q 5 \<noteq> None"
  by (simp add: ex_session_def ex_session_held_def ex_eval_defs)

lemma ex_session_release:
  "\<exists>q q'. ex_session = Some q \<and> free q 2 = Some q' \<and> mPool q' = [0, 1]
     \<and> heap q' 2 = None \<and> heap q' 3 = None \<and> heap q' 4 = None \<and> heap q' 5 = None
     \<and> mTseitinVars q' 2 = None \<and> mTseitinVarToFormula q' 4 = None"
  by (simp add: ex_session_def ex_session_held_def ex_eval_defs)

subsection \<open>Counting handles\<close>

lemma with_usage_fields:
  "mPool (with_usage p b u) = mPool p"
  "mTseitinVars (with_usage p b u) = mTseitinVars p"
  "mTseitinVarToFormula (with_usage p b u) = mTseitinVarToFormula p"
  "mIdAllocator (with_usage p b u) = mIdAllocator p"
  "nextAddr (with_usage p b u) = nextAddr p"
  by (simp_all add: with_usage_def split: option.splits)

lemma with_usage_heap:
  "heap (with_usage p b u) a
     = (if a = b then map_option (\<lambda>c. c\<lparr>mUsages := u\<rparr>) (heap p b) else heap p a)"
  by (simp add: with_usage_def split: option.splits)

lemma with_usage_twice: "with_usage (with_usage p b u) b u' = with_usage p b u'"
  by (simp add: with_usage_def split: option.splits)

lemma with_usage_same: "heap p b = Some cb \<Longrightarrow> mUsages cb = u \<Longrightarrow> with_usage p b u = p"
  by (simp add: with_usage_def fun_upd_idem)

lemma isBaseFormula_with_usage: "isBaseFormula (with_usage p b u) e = isBaseFormula p e"
  by (auto simp: isBaseFormula_def with_usage_heap split: option.splits Content.splits)

lemma getBaseFormula_with_usage: "getBaseFormula (with_usage p b u) e = getBaseFormula p e"
  by (auto simp: getBaseFormula_def isBaseFormula_with_usage with_usage_heap
           split: option.splits)

lemma reg_counts:
  assumes "getBaseFormula p e = Some b" "heap p b = Some cb" "heap p e = Some ce"
    and "mUsages cb < SIZE_MAX"
  shows "reg p e = Some (with_usage p b
           (if mUsages cb = 0 \<and> mType ce = CONSTRAINT then 2 else mUsages cb + 1))"
  using assms by (simp add: reg_def with_usage_def Let_def numeral_2_eq_2)

lemma free_counts:
  assumes "getBaseFormula p e = Some b" "heap p b = Some cb"
    and "0 < mUsages cb" "mUsages cb \<noteq> 2"
  shows "free p e = Some (with_usage p b (mUsages cb - 1))"
proof -
  have "mUsages cb - 1 \<noteq> 1" using assms(3,4) by arith
  then show ?thesis using assms by (simp add: free_def with_usage_def Let_def)
qed

lemma freeTseitinVariable_in_use:
  "counterpart_in_use p a \<Longrightarrow> freeTseitinVariable p a = Some (p, True)"
  by (auto simp: counterpart_in_use_def tseitin_counterpart_def freeTseitinVariable_def
           split: option.splits)

lemma freeTseitinVariable_no_counterpart:
  "tseitin_counterpart p a = None \<Longrightarrow> freeTseitinVariable p a = Some (p, False)"
  by (auto simp: tseitin_counterpart_def freeTseitinVariable_def split: option.splits)

lemma counterpart_with_usage:
  "tseitin_counterpart (with_usage p b u) a = tseitin_counterpart p a"
  by (simp add: tseitin_counterpart_def with_usage_fields split: option.splits)

lemma in_use_with_usage:
  "tseitin_counterpart p a \<noteq> Some b \<Longrightarrow>
   counterpart_in_use (with_usage p b u) a = counterpart_in_use p a"
  by (auto simp: counterpart_in_use_def counterpart_with_usage with_usage_heap
           split: option.splits)

lemma free_last_plain:
  assumes b: "getBaseFormula p e = Some b" "heap p b = Some cb" "mUsages cb = 2"
    and n: "mNegation cb = Some nb" "nb \<noteq> b" "heap p nb \<noteq> None"
    and t: "tseitin_counterpart p b = None" "tseitin_counterpart p nb = None"
  shows "free p e = Some (p\<lparr>mPool := removeAll b (mPool p),
                            heap := (heap p)(nb := None, b := None)\<rparr>)"
proof -
  define p1 where "p1 = with_usage p b 1"
  have h1: "heap p1 b = Some (cb\<lparr>mUsages := 1\<rparr>)" "heap p1 nb = heap p nb"
    using b(2) n(2) by (simp_all add: p1_def with_usage_heap)
  have f1: "freeTseitinVariable p1 b = Some (p1, False)"
    "freeTseitinVariable p1 nb = Some (p1, False)"
    using t by (simp_all add: p1_def freeTseitinVariable_no_counterpart counterpart_with_usage)
  obtain cnb where cnb: "heap p1 nb = Some cnb" using n(3) h1(2) by auto
  have e: "erase_and_delete p1 b = Some (p1\<lparr>mPool := removeAll b (mPool p1),
                            heap := (heap p1)(nb := None, b := None)\<rparr>)"
    using n(1,2) cnb by (intro erase_and_delete_gone [OF h1(1)]) simp_all
  have "free p e = erase_and_delete p1 b"
    using b n f1 h1 by (simp add: free_def p1_def with_usage_def)
  also have "\<dots> = Some (p\<lparr>mPool := removeAll b (mPool p),
                            heap := (heap p)(nb := None, b := None)\<rparr>)"
    unfolding e using b(2) n(2) by (simp add: p1_def with_usage_def)
  finally show ?thesis .
qed

lemma free_last_kept:
  assumes b: "getBaseFormula p e = Some b" "heap p b = Some cb" "mUsages cb = 2"
    and n: "mNegation cb = Some nb" "nb \<noteq> b"
    and u: "counterpart_in_use p b \<or> counterpart_in_use p nb"
    and t: "tseitin_counterpart p b = None \<or> counterpart_in_use p b"
      "tseitin_counterpart p nb = None \<or> counterpart_in_use p nb"
    and s: "tseitin_counterpart p b \<noteq> Some b" "tseitin_counterpart p nb \<noteq> Some b"
  shows "free p e = Some (with_usage p b 1)"
proof -
  define p1 where "p1 = with_usage p b 1"
  have h1: "heap p1 b = Some (cb\<lparr>mUsages := 1\<rparr>)"
    using b(2) by (simp add: p1_def with_usage_heap)
  have iu: "counterpart_in_use p1 b = counterpart_in_use p b"
    "counterpart_in_use p1 nb = counterpart_in_use p nb"
    using s by (simp_all add: p1_def in_use_with_usage)
  have cp: "tseitin_counterpart p1 b = tseitin_counterpart p b"
    "tseitin_counterpart p1 nb = tseitin_counterpart p nb"
    by (simp_all add: p1_def counterpart_with_usage)
  obtain s1 s2 where f: "freeTseitinVariable p1 b = Some (p1, s1)"
    "freeTseitinVariable p1 nb = Some (p1, s2)" "s1 \<or> s2"
    using u t iu cp freeTseitinVariable_in_use [of p1] freeTseitinVariable_no_counterpart [of p1]
    by metis
  show ?thesis
    using b n f h1 by (auto simp: free_def p1_def with_usage_def)
qed

lemma free_last_unused_placeholder:
  assumes b: "getBaseFormula p e = Some b" "heap p b = Some cb" "mUsages cb = 2"
    and n: "mNegation cb = Some nb" "nb \<noteq> b" "heap p nb \<noteq> None"
    and tv: "mTseitinVars p b = Some tv" "heap p tv = Some ctv" "mUsages ctv = 1"
      "mTseitinVarToFormula p tv \<noteq> None" "mNegation ctv = Some ntv" "heap p ntv \<noteq> None"
      "ntv \<noteq> tv"
    and d: "tv \<noteq> b" "tv \<noteq> nb" "ntv \<noteq> b" "ntv \<noteq> nb"
    and t: "tseitin_counterpart p nb = None"
  shows "\<exists>p'. free p e = Some p' \<and> b \<notin> set (mPool p') \<and> tv \<notin> set (mPool p')
           \<and> heap p' b = None \<and> heap p' nb = None \<and> heap p' tv = None \<and> heap p' ntv = None
           \<and> mTseitinVars p' b = None \<and> mTseitinVarToFormula p' tv = None"
proof -
  define p1 where "p1 = with_usage p b 1"
  define p2 where "p2 = p1\<lparr>mTseitinVars := (mTseitinVars p1)(b := None),
                          mTseitinVarToFormula := (mTseitinVarToFormula p1)(tv := None)\<rparr>"
  define q1 where "q1 = p2\<lparr>mPool := removeAll tv (mPool p2),
                          heap := (heap p2)(ntv := None, tv := None)\<rparr>"
  define q2 where "q2 = q1\<lparr>mPool := removeAll b (mPool q1),
                          heap := (heap q1)(nb := None, b := None)\<rparr>"
  have m: "mTseitinVars p nb = None" "mTseitinVarToFormula p nb = None"
    using t by (auto simp: tseitin_counterpart_def split: option.splits)
  have h1: "heap p1 b = Some (cb\<lparr>mUsages := 1\<rparr>)" "heap p1 tv = Some ctv"
    "heap p1 nb = heap p nb" "heap p1 ntv = heap p ntv"
    using b(2) tv(2) d n(2) by (simp_all add: p1_def with_usage_heap)
  obtain cntv where cntv: "heap p2 ntv = Some cntv"
    using tv(6) h1(4) by (auto simp: p2_def)
  have e1: "erase_and_delete p2 tv = Some q1"
    unfolding q1_def using h1(2) tv(5,7) cntv
    by (intro erase_and_delete_gone [of _ _ ctv]) (simp_all add: p2_def)
  have f1: "freeTseitinVariable p1 b = Some (q1, False)"
    using tv(1,3,4) h1(2) e1
    by (simp add: freeTseitinVariable_def p2_def p1_def with_usage_fields Let_def)
  have hq: "heap q1 b = Some (cb\<lparr>mUsages := 1\<rparr>)" "heap q1 nb = heap p nb"
    using h1 d by (simp_all add: q1_def p2_def)
  have "tseitin_counterpart q1 nb = None"
    using m n(2)
    by (simp add: tseitin_counterpart_def q1_def p2_def p1_def with_usage_fields)
  then have f2: "freeTseitinVariable q1 nb = Some (q1, False)"
    by (rule freeTseitinVariable_no_counterpart)
  obtain cnb where cnb: "heap q1 nb = Some cnb" using n(3) hq(2) by auto
  have e2: "erase_and_delete q1 b = Some q2"
    unfolding q2_def using n(1,2) cnb by (intro erase_and_delete_gone [OF hq(1)]) simp_all
  have "free p e = Some q2"
    using b n(1) f1 f2 hq(1) e2 by (simp add: free_def p1_def with_usage_def)
  moreover have "b \<notin> set (mPool q2)" "tv \<notin> set (mPool q2)" "heap q2 b = None"
    "heap q2 nb = None" "heap q2 tv = None" "heap q2 ntv = None"
    "mTseitinVars q2 b = None" "mTseitinVarToFormula q2 tv = None"
    using d by (simp_all add: q2_def q1_def p2_def)
  ultimately show ?thesis by blast
qed

subsection \<open>\<open>n\<close> handles, \<open>n\<close> releases\<close>

lemma regs_count:
  assumes b: "getBaseFormula p e = Some b" "heap p b = Some cb" "heap p e \<noteq> None"
    and u: "1 \<le> u" "u + n \<le> SIZE_MAX"
  shows "repeat_op (\<lambda>q. Formula_handle q e) n (with_usage p b u) = Some (with_usage p b (u + n))"
  using u
proof (induction n arbitrary: u)
  case 0
  then show ?case by simp
next
  case (Suc n)
  have "heap (with_usage p b u) e \<noteq> None"
    using b(2,3) by (simp add: with_usage_heap)
  then obtain ce where ce: "heap (with_usage p b u) e = Some ce" by blast
  have hb: "heap (with_usage p b u) b = Some (cb\<lparr>mUsages := u\<rparr>)"
    using b(2) by (simp add: with_usage_heap)
  have "reg (with_usage p b u) e = Some (with_usage (with_usage p b u) b (Suc u))"
    using reg_counts [OF _ hb ce] b(1) Suc.prems
    by (simp add: getBaseFormula_with_usage)
  then have "Formula_handle (with_usage p b u) e = Some (with_usage p b (Suc u))"
    by (simp add: Formula_handle_def with_usage_twice)
  moreover have "repeat_op (\<lambda>q. Formula_handle q e) n (with_usage p b (Suc u))
                   = Some (with_usage p b (Suc u + n))"
    using Suc.prems by (intro Suc.IH) simp_all
  ultimately show ?case by simp
qed

lemma frees_count:
  assumes b: "getBaseFormula p e = Some b" "heap p b = Some cb"
  shows "repeat_op (\<lambda>q. free q e) m (with_usage p b (2 + j + m)) = Some (with_usage p b (2 + j))"
proof (induction m)
  case 0
  then show ?case by simp
next
  case (Suc m)
  have hb: "heap (with_usage p b (2 + j + Suc m)) b = Some (cb\<lparr>mUsages := 2 + j + Suc m\<rparr>)"
    using b(2) by (simp add: with_usage_heap)
  have "free (with_usage p b (2 + j + Suc m)) e
          = Some (with_usage (with_usage p b (2 + j + Suc m)) b (2 + j + m))"
    using free_counts [OF _ hb] b(1) by (simp add: getBaseFormula_with_usage)
  then show ?case using Suc.IH by (simp add: with_usage_twice)
qed

lemma repeat_op_snoc:
  "repeat_op f (Suc n) s = (case repeat_op f n s of None \<Rightarrow> None | Some s' \<Rightarrow> f s')"
proof (induction n arbitrary: s)
  case 0
  show ?case by (simp split: option.splits)
next
  case (Suc n)
  show ?case
  proof (cases "f s")
    case None
    then show ?thesis by simp
  next
    case (Some s')
    have "repeat_op f (Suc (Suc n)) s = repeat_op f (Suc n) s'"
      using Some by simp
    also have "\<dots> = (case repeat_op f n s' of None \<Rightarrow> None | Some x \<Rightarrow> f x)"
      by (rule Suc.IH)
    also have "\<dots> = (case repeat_op f (Suc n) s of None \<Rightarrow> None | Some x \<Rightarrow> f x)"
      using Some by simp
    finally show ?thesis .
  qed
qed

lemma handles_then_releases:
  assumes b: "getBaseFormula p e = Some b" "heap p b = Some cb" "heap p e = Some ce"
    and n: "mNegation cb = Some nb" "nb \<noteq> b" "heap p nb \<noteq> None"
    and u: "mUsages cb = 1 \<or> (mUsages cb = 0 \<and> mType ce = CONSTRAINT)"
    and t: "tseitin_counterpart p b = None" "tseitin_counterpart p nb = None"
    and c: "0 < n" "n + 1 \<le> SIZE_MAX"
  shows "\<exists>p1. repeat_op (\<lambda>q. Formula_handle q e) n p = Some p1
           \<and> (\<forall>m<n. \<exists>q. repeat_op (\<lambda>q. free q e) m p1 = Some q
                       \<and> heap q b \<noteq> None \<and> mPool q = mPool p)
           \<and> repeat_op (\<lambda>q. free q e) n p1
               = Some (p\<lparr>mPool := removeAll b (mPool p),
                         heap := (heap p)(nb := None, b := None)\<rparr>)"
proof -
  from c(1) obtain k where k: "n = Suc k" by (cases n) auto
  define p1 where "p1 = with_usage p b (2 + k)"
  have "mUsages cb < SIZE_MAX" using u by (auto simp: SIZE_MAX_def)
  from reg_counts [OF b this] u
  have r1: "Formula_handle p e = Some (with_usage p b 2)"
    by (auto simp: Formula_handle_def numeral_2_eq_2)
  have "repeat_op (\<lambda>q. Formula_handle q e) k (with_usage p b 2) = Some (with_usage p b (2 + k))"
    using b c(2) k by (intro regs_count) simp_all
  with r1 have regs: "repeat_op (\<lambda>q. Formula_handle q e) n p = Some p1"
    by (simp add: k p1_def)
  have part: "\<exists>q. repeat_op (\<lambda>q. free q e) m p1 = Some q \<and> heap q b \<noteq> None
                \<and> mPool q = mPool p" if "m < n" for m
  proof -
    from that k have "2 + k = 2 + (k - m) + m" by simp
    then have "repeat_op (\<lambda>q. free q e) m p1 = Some (with_usage p b (2 + (k - m)))"
      unfolding p1_def using frees_count [OF b(1,2), of m "k - m"] by simp
    then show ?thesis using b(2) by (simp add: with_usage_heap with_usage_fields)
  qed
  have fk: "repeat_op (\<lambda>q. free q e) k p1 = Some (with_usage p b 2)"
    unfolding p1_def using frees_count [OF b(1,2), of k 0] by simp
  have hb: "heap (with_usage p b 2) b = Some (cb\<lparr>mUsages := 2\<rparr>)"
    using b(2) by (simp add: with_usage_heap)
  have "free (with_usage p b 2) e
          = Some ((with_usage p b 2)\<lparr>mPool := removeAll b (mPool (with_usage p b 2)),
                  heap := (heap (with_usage p b 2))(nb := None, b := None)\<rparr>)"
    using n t b(1)
    by (intro free_last_plain [OF _ hb])
       (simp_all add: getBaseFormula_with_usage counterpart_with_usage with_usage_heap)
  also have "\<dots> = Some (p\<lparr>mPool := removeAll b (mPool p),
                         heap := (heap p)(nb := None, b := None)\<rparr>)"
    using b(2) by (simp add: with_usage_def)
  finally have "repeat_op (\<lambda>q. free q e) n p1
               = Some (p\<lparr>mPool := removeAll b (mPool p),
                         heap := (heap p)(nb := None, b := None)\<rparr>)"
    unfolding k repeat_op_snoc fk by simp
  with regs part show ?thesis by blast
qed

subsection \<open>The life cycle of a node\<close>

text \<open>
  Claim C8, as amended.  Let \<open>b\<close> be the base formula of \<open>e\<close> and \<open>nb\<close> its negation.
  \<^item> A release decrements the counter of \<open>b\<close> and does nothing else as long as the
    decremented counter is not 1.
  \<^item> The release that brings the counter to 1 removes \<open>b\<close> from the lookup table and
    destroys \<open>nb\<close> and \<open>b\<close> when neither has a Tseitin counterpart.
  \<^item> The counter of a freshly published node is 1 (the handle held by its NOT node), or
    0 for a constraint, whose first registration counts twice.  From there, \<open>n\<close>
    handles on the formula followed by \<open>n\<close> releases succeed; the node stays live up
    to the last release, which leaves the pool without the node and its negation.
  \<^item> When \<open>b\<close> or \<open>nb\<close> has a Tseitin counterpart that is still in use, and neither has
    one that is out of use, the last release only decrements: the pair stays.
  \<^item> When \<open>b\<close> has a placeholder that is out of use, the last release destroys the
    placeholder, its negation and the mapping, and then \<open>b\<close> and \<open>nb\<close>.
\<close>

theorem release_lifecycle:
  assumes "getBaseFormula p e = Some b" and "heap p b = Some cb" and "heap p e = Some ce"
    and "mNegation cb = Some nb" and "nb \<noteq> b" and "heap p nb \<noteq> None"
  shows "(0 < mUsages cb \<and> mUsages cb \<noteq> 2 \<longrightarrow>
            free p e = Some (with_usage p b (mUsages cb - 1)))
       \<and> (mUsages cb = 2 \<and> tseitin_counterpart p b = None \<and> tseitin_counterpart p nb = None \<longrightarrow>
            free p e = Some (p\<lparr>mPool := removeAll b (mPool p),
                                heap := (heap p)(nb := None, b := None)\<rparr>))
       \<and> ((mUsages cb = 1 \<or> (mUsages cb = 0 \<and> mType ce = CONSTRAINT))
            \<and> tseitin_counterpart p b = None \<and> tseitin_counterpart p nb = None
            \<and> 0 < n \<and> n + 1 \<le> SIZE_MAX \<longrightarrow>
            (\<exists>p1. repeat_op (\<lambda>q. Formula_handle q e) n p = Some p1
               \<and> (\<forall>m<n. \<exists>q. repeat_op (\<lambda>q. free q e) m p1 = Some q
                           \<and> heap q b \<noteq> None \<and> mPool q = mPool p)
               \<and> repeat_op (\<lambda>q. free q e) n p1
                   = Some (p\<lparr>mPool := removeAll b (mPool p),
                             heap := (heap p)(nb := None, b := None)\<rparr>)))
       \<and> (mUsages cb = 2
            \<and> (counterpart_in_use p b \<or> counterpart_in_use p nb)
            \<and> (tseitin_counterpart p b = None \<or> counterpart_in_use p b)
            \<and> (tseitin_counterpart p nb = None \<or> counterpart_in_use p nb)
            \<and> tseitin_counterpart p b \<noteq> Some b \<and> tseitin_counterpart p nb \<noteq> Some b \<longrightarrow>
            free p e = Some (with_usage p b 1))
       \<and> (mUsages cb = 2 \<and> mTseitinVars p b = Some tv \<and> heap p tv = Some ctv
            \<and> mUsages ctv = 1 \<and> mTseitinVarToFormula p tv \<noteq> None
            \<and> mNegation ctv = Some ntv \<and> heap p ntv \<noteq> None \<and> ntv \<noteq> tv
            \<and> tv \<noteq> b \<and> tv \<noteq> nb \<and> ntv \<noteq> b \<and> ntv \<noteq> nb
            \<and> tseitin_counterpart p nb = None \<longrightarrow>
            (\<exists>p'. free p e = Some p' \<and> b \<notin> set (mPool p') \<and> tv \<notin> set (mPool p')
               \<and> heap p' b = None \<and> heap p' nb = None
               \<and> heap p' tv = None \<and> heap p' ntv = None
               \<and> mTseitinVars p' b = None \<and> mTseitinVarToFormula p' tv = None))"
proof (intro conjI impI)
  assume "0 < mUsages cb \<and> mUsages cb \<noteq> 2"
  then show "free p e = Some (with_usage p b (mUsages cb - 1))"
    using free_counts [OF assms(1,2)] by simp
next
  assume "mUsages cb = 2 \<and> tseitin_counterpart p b = None \<and> tseitin_counterpart p nb = None"
  then show "free p e = Some (p\<lparr>mPool := removeAll b (mPool p),
                                heap := (heap p)(nb := None, b := None)\<rparr>)"
    using free_last_plain [OF assms(1,2) _ assms(4,5,6)] by simp
next
  assume a: "(mUsages cb = 1 \<or> (mUsages cb = 0 \<and> mType ce = CONSTRAINT))
            \<and> tseitin_counterpart p b = None \<and> tseitin_counterpart p nb = None
            \<and> 0 < n \<and> n + 1 \<le> SIZE_MAX"
  show "\<exists>p1. repeat_op (\<lambda>q. Formula_handle q e) n p = Some p1
               \<and> (\<forall>m<n. \<exists>q. repeat_op (\<lambda>q. free q e) m p1 = Some q
                           \<and> heap q b \<noteq> None \<and> mPool q = mPool p)
               \<and> repeat_op (\<lambda>q. free q e) n p1
                   = Some (p\<lparr>mPool := removeAll b (mPool p),
                             heap := (heap p)(nb := None, b := None)\<rparr>)"
    by (rule handles_then_releases [OF assms]) (use a in simp_all)
next
  assume a: "mUsages cb = 2
            \<and> (counterpart_in_use p b \<or> counterpart_in_use p nb)
            \<and> (tseitin_counterpart p b = None \<or> counterpart_in_use p b)
            \<and> (tseitin_counterpart p nb = None \<or> counterpart_in_use p nb)
            \<and> tseitin_counterpart p b \<noteq> Some b \<and> tseitin_counterpart p nb \<noteq> Some b"
  show "free p e = Some (with_usage p b 1)"
    by (rule free_last_kept [OF assms(1,2) _ assms(4,5)]) (use a in simp_all)
next
  assume a: "mUsages cb = 2 \<and> mTseitinVars p b = Some tv \<and> heap p tv = Some ctv
            \<and> mUsages ctv = 1 \<and> mTseitinVarToFormula p tv \<noteq> None
            \<and> mNegation ctv = Some ntv \<and> heap p ntv \<noteq> None \<and> ntv \<noteq> tv
            \<and> tv \<noteq> b \<and> tv \<noteq> nb \<and> ntv \<noteq> b \<and> ntv \<noteq> nb
            \<and> tseitin_counterpart p nb = None"
  show "\<exists>p'. free p e = Some p' \<and> b \<notin> set (mPool p') \<and> tv \<notin> set (mPool p')
               \<and> heap p' b = None \<and> heap p' nb = None
               \<and> heap p' tv = None \<and> heap p' ntv = None
               \<and> mTseitinVars p' b = None \<and> mTseitinVarToFormula p' tv = None"
    by (rule free_last_unused_placeholder [OF assms(1,2) _ assms(4,5,6)]) (use a in blast)+
qed

lemma ex_no_counterpart: "tseitin_counterpart (ex_pool u w) a = None"
  by (simp add: tseitin_counterpart_def ex_tseitin_empty)

theorem release_lifecycle_witness:
  "free (ex_pool 3 0) 3 = Some (with_usage (ex_pool 3 0) 2 2)
   \<and> free (ex_pool 2 0) 3
       = Some ((ex_pool 2 0)\<lparr>mPool := removeAll 2 (mPool (ex_pool 2 0)),
                              heap := (heap (ex_pool 2 0))(3 := None, 2 := None)\<rparr>)
   \<and> (\<exists>p1. repeat_op (\<lambda>q. Formula_handle q 3) 2 (ex_pool 1 0) = Some p1
          \<and> repeat_op (\<lambda>q. free q 3) 2 p1
              = Some ((ex_pool 1 0)\<lparr>mPool := removeAll 2 (mPool (ex_pool 1 0)),
                                     heap := (heap (ex_pool 1 0))(3 := None, 2 := None)\<rparr>))
   \<and> (\<exists>p1. repeat_op (\<lambda>q. Formula_handle q 5) 3 (ex_pool 1 0) = Some p1
          \<and> repeat_op (\<lambda>q. free q 5) 3 p1
              = Some ((ex_pool 1 0)\<lparr>mPool := removeAll 4 (mPool (ex_pool 1 0)),
                                     heap := (heap (ex_pool 1 0))(5 := None, 4 := None)\<rparr>))
   \<and> (\<exists>q. ex_session_held = Some (q, 4) \<and> free q 2 = Some (with_usage q 2 1)
          \<and> free q 4 = Some (with_usage q 4 1))
   \<and> (\<exists>q p'. ex_session = Some q \<and> mTseitinVars q 2 = Some 4 \<and> free q 2 = Some p'
          \<and> 2 \<notin> set (mPool p') \<and> heap p' 2 = None \<and> heap p' 3 = None
          \<and> heap p' 4 = None \<and> mTseitinVars p' 2 = None)"
proof -
  have nn: "(3::nat) \<noteq> 2" "(5::nat) \<noteq> 4" by simp_all
  have l3: "heap (ex_pool u w) 3 \<noteq> None" "heap (ex_pool u w) 5 \<noteq> None" for u w
    using ex_heap_at(2,4) [of u w] by simp_all
  note t1 = release_lifecycle [OF ex_base3 [of 3 0] ex_heap_at(1) ex_heap_at(2) _ nn(1) l3(1)]
  have w1: "free (ex_pool 3 0) 3 = Some (with_usage (ex_pool 3 0) 2 2)"
    using t1 [THEN conjunct1] by simp
  note t2 = release_lifecycle [OF ex_base3 [of 2 0] ex_heap_at(1) ex_heap_at(2) _ nn(1) l3(1)]
  have w2: "free (ex_pool 2 0) 3
       = Some ((ex_pool 2 0)\<lparr>mPool := removeAll 2 (mPool (ex_pool 2 0)),
                              heap := (heap (ex_pool 2 0))(3 := None, 2 := None)\<rparr>)"
    using t2 [THEN conjunct2, THEN conjunct1] by (simp add: ex_no_counterpart)
  note t3 = release_lifecycle [OF ex_base3 [of 1 0] ex_heap_at(1) ex_heap_at(2) _ nn(1) l3(1),
      where n = 2]
  have w3: "\<exists>p1. repeat_op (\<lambda>q. Formula_handle q 3) 2 (ex_pool 1 0) = Some p1
          \<and> repeat_op (\<lambda>q. free q 3) 2 p1
              = Some ((ex_pool 1 0)\<lparr>mPool := removeAll 2 (mPool (ex_pool 1 0)),
                                     heap := (heap (ex_pool 1 0))(3 := None, 2 := None)\<rparr>)"
    using t3 [THEN conjunct2, THEN conjunct2, THEN conjunct1]
    by (simp add: ex_no_counterpart SIZE_MAX_def) blast
  note t4 = release_lifecycle [OF ex_base5 [of 1 0] ex_heap_at(3) ex_heap_at(4) _ nn(2) l3(2),
      where n = 3]
  have w4: "\<exists>p1. repeat_op (\<lambda>q. Formula_handle q 5) 3 (ex_pool 1 0) = Some p1
          \<and> repeat_op (\<lambda>q. free q 5) 3 p1
              = Some ((ex_pool 1 0)\<lparr>mPool := removeAll 4 (mPool (ex_pool 1 0)),
                                     heap := (heap (ex_pool 1 0))(5 := None, 4 := None)\<rparr>)"
    using t4 [THEN conjunct2, THEN conjunct2, THEN conjunct1]
    by (simp add: ex_no_counterpart SIZE_MAX_def) blast
  have w5: "\<exists>q. ex_session_held = Some (q, 4) \<and> free q 2 = Some (with_usage q 2 1)
          \<and> free q 4 = Some (with_usage q 4 1)"
  proof -
    from ex_session_held_facts obtain q where q: "ex_session_held = Some (q, 4)"
      and m: "mTseitinVars q 2 = Some 4" "mTseitinVarToFormula q 4 = Some 2"
        "mTseitinVars q 3 = None" "mTseitinVarToFormula q 3 = None" "mTseitinVars q 4 = None"
        "mTseitinVars q 5 = None" "mTseitinVarToFormula q 5 = None"
      and u: "map_option mUsages (heap q 2) = Some 2" "map_option mUsages (heap q 4) = Some 2"
      and ng: "map_option mNegation (heap q 2) = Some (Some 3)"
        "map_option mNegation (heap q 4) = Some (Some 5)"
      and g: "getBaseFormula q 2 = Some 2" "getBaseFormula q 4 = Some 4"
      and l: "heap q 3 \<noteq> None" "heap q 5 \<noteq> None"
      by blast
    from u obtain c2 c4 where h: "heap q 2 = Some c2" "heap q 4 = Some c4" by auto
    have f: "mUsages c2 = 2" "mUsages c4 = 2" "mNegation c2 = Some 3" "mNegation c4 = Some 5"
      using u ng h by simp_all
    have cp: "tseitin_counterpart q 2 = Some 4" "tseitin_counterpart q 3 = None"
      "tseitin_counterpart q 4 = Some 2" "tseitin_counterpart q 5 = None"
      using m by (simp_all add: tseitin_counterpart_def)
    have iu: "counterpart_in_use q 2" "counterpart_in_use q 4"
      using cp h f by (simp_all add: counterpart_in_use_def)
    note a = release_lifecycle [OF g(1) h(1) h(1) f(3) nn(1) l(1)]
    note b = release_lifecycle [OF g(2) h(2) h(2) f(4) nn(2) l(2)]
    have "free q 2 = Some (with_usage q 2 1)"
      using a [THEN conjunct2, THEN conjunct2, THEN conjunct2, THEN conjunct1] f cp iu
      by simp
    moreover have "free q 4 = Some (with_usage q 4 1)"
      using b [THEN conjunct2, THEN conjunct2, THEN conjunct2, THEN conjunct1] f cp iu
      by simp
    ultimately show ?thesis using q by blast
  qed
  have w6: "\<exists>q p'. ex_session = Some q \<and> mTseitinVars q 2 = Some 4 \<and> free q 2 = Some p'
          \<and> 2 \<notin> set (mPool p') \<and> heap p' 2 = None \<and> heap p' 3 = None
          \<and> heap p' 4 = None \<and> mTseitinVars p' 2 = None"
  proof -
    from ex_session_facts obtain q where q: "ex_session = Some q"
      and m: "mTseitinVars q 2 = Some 4" "mTseitinVarToFormula q 4 = Some 2"
        "mTseitinVars q 3 = None" "mTseitinVarToFormula q 3 = None"
      and u: "map_option mUsages (heap q 2) = Some 2" "map_option mUsages (heap q 4) = Some 1"
      and ng: "map_option mNegation (heap q 2) = Some (Some 3)"
        "map_option mNegation (heap q 4) = Some (Some 5)"
      and g: "getBaseFormula q 2 = Some 2"
      and l: "heap q 3 \<noteq> None" "heap q 5 \<noteq> None"
      by blast
    from u obtain c2 c4 where h: "heap q 2 = Some c2" "heap q 4 = Some c4" by auto
    have f: "mUsages c2 = 2" "mUsages c4 = 1" "mNegation c2 = Some 3" "mNegation c4 = Some 5"
      using u ng h by simp_all
    have cp: "tseitin_counterpart q 3 = None"
      using m by (simp add: tseitin_counterpart_def)
    note a = release_lifecycle [OF g h(1) h(1) f(3) nn(1) l(1), where tv = 4 and ctv = c4
        and ntv = 5]
    have "\<exists>p'. free q 2 = Some p' \<and> 2 \<notin> set (mPool p') \<and> 4 \<notin> set (mPool p')
               \<and> heap p' 2 = None \<and> heap p' 3 = None
               \<and> heap p' 4 = None \<and> heap p' 5 = None
               \<and> mTseitinVars p' 2 = None \<and> mTseitinVarToFormula p' 4 = None"
      using a [THEN conjunct2, THEN conjunct2, THEN conjunct2, THEN conjunct2] f cp m h l
      by simp
    then show ?thesis using q m(1) by blast
  qed
  from w1 w2 w3 w4 w5 w6 show ?thesis by blast
qed

text \<open>The claim as it was stated fails in the session above.  When the handle on the
  variable is released, its counter is 2 and the variable is a key of the Tseitin map;
  the release succeeds and the variable is gone from the table and destroyed.\<close>

theorem release_lifecycle_counterexample:
  "ex_session \<noteq> None
   \<and> mTseitinVars (the ex_session) 2 = Some 4
   \<and> mTseitinVarToFormula (the ex_session) 4 = Some 2
   \<and> map_option mUsages (heap (the ex_session) 2) = Some 2
   \<and> 2 \<in> set (mPool (the ex_session))
   \<and> free (the ex_session) 2 \<noteq> None
   \<and> 2 \<notin> set (mPool (the (free (the ex_session) 2)))
   \<and> heap (the (free (the ex_session) 2)) 2 = None"
proof -
  from ex_session_release obtain q q' where a: "ex_session = Some q" "free q 2 = Some q'"
    "mPool q' = [0, 1]" "heap q' 2 = None" by blast
  from ex_session_facts obtain q0 where c: "ex_session = Some q0" "mPool q0 = [0, 1, 2, 4]"
    "mTseitinVars q0 2 = Some 4" "mTseitinVarToFormula q0 4 = Some 2"
    "map_option mUsages (heap q0 2) = Some 2"
    by blast
  have "q0 = q" using a(1) c(1) by (metis option.inject)
  with c have b: "mPool q = [0, 1, 2, 4]" "mTseitinVars q 2 = Some 4"
    "mTseitinVarToFormula q 4 = Some 2" "map_option mUsages (heap q 2) = Some 2"
    by simp_all
  have m: "2 \<in> set (mPool q)" "2 \<notin> set (mPool q')"
    using a(3) b(1) by simp_all
  show ?thesis
    unfolding a(1) option.sel a(2)
    using b(2,3,4) m a(4) by blast
qed

subsection \<open>Interning in \<open>AstPool\<close>\<close>

lemma ast_eq_refl: "ast_eq a a"
  by (simp add: ast_eq_def)

lemma ast_eq_set_id: "ast_eq (set_id a i) b = ast_eq a b"
  by (simp add: ast_eq_def set_id_def)

lemma ast_eq_cong: "ast_eq c1 c2 \<Longrightarrow> ast_eq e c1 = ast_eq e c2"
  by (auto simp: ast_eq_def)

lemma subast_smaller: "a \<in> set (subasts b) \<Longrightarrow> size a < size b"
  by (cases b) (auto simp: less_Suc_eq_le size_list_estimation')

lemma not_own_negation: "\<not> ast_eq a (Ast_negated a)"
proof
  assume "ast_eq a (Ast_negated a)"
  then have "a \<in> set (subasts a)" by (simp add: ast_eq_def Ast_negated_def)
  from subast_smaller [OF this] show False by simp
qed

lemma addAstToPool_found:
  "find (\<lambda>e. ast_eq e ast) (mAsts p) = Some e \<Longrightarrow> addAstToPool p ast = Some (p, e)"
  by (simp add: addAstToPool_def)

lemma addAstToPool_new:
  assumes new: "find (\<lambda>e. ast_eq e ast) (mAsts p) = None"
    and nneg: "find (\<lambda>e. ast_eq e (Ast_negated (set_id ast (mIdAllocator_Ast p)))) (mAsts p) = None"
  shows "addAstToPool p ast =
     Some (\<lparr>mIdAllocator_Ast = mIdAllocator_Ast p + 2, mpTrue_Ast = mpTrue_Ast p,
            mpFalse_Ast = mpFalse_Ast p,
            mAsts = mAsts p @ [set_id ast (mIdAllocator_Ast p),
                               Ast (mIdAllocator_Ast p + 1) NOT 0
                                 [set_id ast (mIdAllocator_Ast p)]]\<rparr>,
           set_id ast (mIdAllocator_Ast p))"
proof -
  have "find (\<lambda>e. ast_eq e (Ast_negated (set_id ast (mIdAllocator_Ast p))))
          (mAsts p @ [set_id ast (mIdAllocator_Ast p)]) = None"
    using nneg not_own_negation by (auto simp: find_None_iff)
  then show ?thesis
    using new by (cases p) (simp add: addAstToPool_def Let_def set_id_def Ast_negated_def)
qed

text \<open>
  Claim C2.  When the shape of the candidate is not in the table (and its negation is not
  there either, which the source asserts), \<open>addAstToPool\<close> publishes the candidate with
  the id \<open>k\<close> that the allocator holds, then its negation, the NOT node over it, with the
  id \<open>k + 1\<close>, and leaves the allocator at \<open>k + 2\<close>; ids are unsigned 32-bit numbers.
  As long as the allocator stays below \<open>2^32\<close> the ids are \<open>k\<close> and \<open>k + 1\<close> as
  numbers and the allocator grows.
\<close>

theorem negation_id_adjacent:
  assumes "find (\<lambda>e. ast_eq e ast) (mAsts p) = None"
    and "find (\<lambda>e. ast_eq e (Ast_negated (set_id ast (mIdAllocator_Ast p)))) (mAsts p) = None"
  shows "\<exists>p' r n. addAstToPool p ast = Some (p', r) \<and> mAsts p' = mAsts p @ [r, n]
           \<and> ast_eq r ast \<and> mId_Ast r = mIdAllocator_Ast p
           \<and> getType n = NOT \<and> subasts n = [r] \<and> mId_Ast n = mIdAllocator_Ast p + 1
           \<and> mIdAllocator_Ast p' = mIdAllocator_Ast p + 2
           \<and> (unat (mIdAllocator_Ast p) + 2 < 2 ^ 32 \<longrightarrow>
                unat (mId_Ast n) = unat (mId_Ast r) + 1
                \<and> unat (mIdAllocator_Ast p') = unat (mIdAllocator_Ast p) + 2)"
proof -
  have w: "unat (mIdAllocator_Ast p) + 2 < 2 ^ 32 \<longrightarrow>
             unat (mIdAllocator_Ast p + 1) = unat (mIdAllocator_Ast p) + 1
           \<and> unat (mIdAllocator_Ast p + 2) = unat (mIdAllocator_Ast p) + 2"
    by (auto simp: unat_word_ariths)
  show ?thesis
    unfolding addAstToPool_new [OF assms]
    using w by (simp add: ast_eq_def set_id_def)
qed

theorem negation_id_adjacent_witness:
  "\<exists>p' r n. addAstToPool AstPool_init (Ast 0 BOOL 7 []) = Some (p', r)
      \<and> mAsts p' = mAsts AstPool_init @ [r, n]
      \<and> mId_Ast r = 3 \<and> getType n = NOT \<and> subasts n = [r] \<and> mId_Ast n = 4
      \<and> mIdAllocator_Ast p' = 5 \<and> unat (mId_Ast n) = unat (mId_Ast r) + 1"
proof -
  have a: "find (\<lambda>e. ast_eq e (Ast 0 BOOL 7 [])) (mAsts AstPool_init) = None"
    by (simp add: AstPool_init_def ast_eq_def)
  have b: "find (\<lambda>e. ast_eq e (Ast_negated (set_id (Ast 0 BOOL 7 [])
              (mIdAllocator_Ast AstPool_init)))) (mAsts AstPool_init) = None"
    by (simp add: AstPool_init_def ast_eq_def Ast_negated_def)
  have c: "unat (mIdAllocator_Ast AstPool_init) + 2 < 2 ^ 32"
    by (simp add: AstPool_init_def)
  from negation_id_adjacent [OF a b] c show ?thesis
    by (auto simp: AstPool_init_def)
qed

subsection \<open>Empty operand sets\<close>

lemma createAst_loop_end: "createAst_loop p t (s, None) = Some (Inr s)"
  by (simp add: createAst_loop.simps)

lemma createAst_loop_step:
  "createAst_loop p t (s, Some x) =
     (case createAst_step p t s x of
        None \<Rightarrow> None
      | Some (Inl r) \<Rightarrow> Some (Inl r)
      | Some (Inr st') \<Rightarrow> createAst_loop p t st')"
  by (subst createAst_loop.simps) simp

text \<open>
  Claim C6.  Whether or not \<open>SIMPLIFY_AST\<close> is defined: called with no operand,
  \<open>createAst\<close> returns FALSE for each of the four connectives and leaves the pool as it
  is.  An AND over TRUE alone, the set that is empty once TRUE is eliminated, is TRUE, and
  an OR over FALSE alone is FALSE.
\<close>

theorem empty_operands:
  assumes "getType (mpTrue_Ast p) = TRUE" and "getType (mpFalse_Ast p) = FALSE"
  shows "createAst simplify p AND [] = Some (p, mpFalse_Ast p)
       \<and> createAst simplify p OR [] = Some (p, mpFalse_Ast p)
       \<and> createAst simplify p XOR [] = Some (p, mpFalse_Ast p)
       \<and> createAst simplify p IFF [] = Some (p, mpFalse_Ast p)
       \<and> createAst simplify p AND [mpTrue_Ast p] = Some (p, mpTrue_Ast p)
       \<and> createAst simplify p OR [mpFalse_Ast p] = Some (p, mpFalse_Ast p)"
proof -
  have e: "createAst simplify p t [] = Some (p, mpFalse_Ast p)"
    if "t = AND \<or> t = OR \<or> t = XOR \<or> t = IFF" for t
    using that by (auto simp: createAst_def createAst_loop_end createAst_finish_def)
  have st: "createAst_step p AND [mpTrue_Ast p] (mpTrue_Ast p) = Some (Inr ([mpTrue_Ast p], None))"
    using assms(1) by (simp add: createAst_step_def next_after_def)
  have sf: "createAst_step p OR [mpFalse_Ast p] (mpFalse_Ast p) = Some (Inr ([mpFalse_Ast p], None))"
    using assms(2) by (simp add: createAst_step_def next_after_def)
  have a: "createAst simplify p AND [mpTrue_Ast p] = Some (p, mpTrue_Ast p)"
    by (simp add: createAst_def createAst_loop_step st createAst_loop_end createAst_finish_def
        newAstWithOneSubast_def)
  have ne: "mpFalse_Ast p \<noteq> mpTrue_Ast p" using assms by auto
  have b: "createAst simplify p OR [mpFalse_Ast p] = Some (p, mpFalse_Ast p)"
    using ne
    by (simp add: createAst_def createAst_loop_step sf createAst_loop_end createAst_finish_def
        newAstWithOneSubast_def)
  from e a b show ?thesis by simp
qed

theorem empty_operands_witness:
  "createAst True AstPool_init AND [] = Some (AstPool_init, Ast 2 FALSE 0 [])
   \<and> createAst True AstPool_init OR [] = Some (AstPool_init, Ast 2 FALSE 0 [])
   \<and> createAst True AstPool_init AND [Ast 1 TRUE 0 []] = Some (AstPool_init, Ast 1 TRUE 0 [])
   \<and> createAst True AstPool_init OR [Ast 2 FALSE 0 []] = Some (AstPool_init, Ast 2 FALSE 0 [])"
proof -
  have t: "getType (mpTrue_Ast AstPool_init) = TRUE" "getType (mpFalse_Ast AstPool_init) = FALSE"
    by (simp_all add: AstPool_init_def)
  have m: "mpTrue_Ast AstPool_init = Ast 1 TRUE 0 []" "mpFalse_Ast AstPool_init = Ast 2 FALSE 0 []"
    by (simp_all add: AstPool_init_def)
  from empty_operands [OF t, of True] show ?thesis unfolding m by simp
qed

subsection \<open>Pointer sets\<close>

lemma set_PointerSet_insert:
  "id_sorted s \<Longrightarrow>
   set (PointerSet_insert s a)
     = (if mId_Ast a \<in> mId_Ast ` set s then set s else insert a (set s))"
  unfolding id_sorted_def by (induction s) (auto simp: rev_image_eqI)

lemma set_PointerSet_insert_subset:
  "set (PointerSet_insert s a) \<subseteq> insert a (set s)"
  by (induction s) auto

lemma PointerSet_insert_sorted:
  "id_sorted s \<Longrightarrow> id_sorted (PointerSet_insert s a)"
  unfolding id_sorted_def
proof (induction s)
  case Nil
  then show ?case by simp
next
  case (Cons x xs)
  then show ?case
    using set_PointerSet_insert_subset [of xs a] by (auto split: if_splits)
qed

lemma fold_PointerSet_insert_sorted:
  "id_sorted s \<Longrightarrow> id_sorted (fold (\<lambda>a s. PointerSet_insert s a) xs s)"
  by (induction xs arbitrary: s) (simp_all add: PointerSet_insert_sorted)

lemma set_fold_PointerSet_insert:
  "id_sorted s \<Longrightarrow> inj_on mId_Ast (set xs \<union> set s) \<Longrightarrow>
   set (fold (\<lambda>a s. PointerSet_insert s a) xs s) = set xs \<union> set s"
proof (induction xs arbitrary: s)
  case Nil
  then show ?case by simp
next
  case (Cons x xs)
  have s1: "set (PointerSet_insert s x) = insert x (set s)"
    using Cons.prems by (auto simp: set_PointerSet_insert dest: inj_onD)
  have "inj_on mId_Ast (set xs \<union> set (PointerSet_insert s x))"
    using Cons.prems(2) unfolding s1 by (auto intro: inj_on_subset)
  from Cons.IH [OF PointerSet_insert_sorted [OF Cons.prems(1)] this]
  show ?case by (simp add: s1)
qed

lemma id_sorted_unique:
  assumes "id_sorted xs" "id_sorted ys" "set xs = set ys"
  shows "xs = ys"
proof -
  have lin: "sorted_wrt (\<lambda>a b. mId_Ast a < mId_Ast b) zs \<Longrightarrow>
             sorted (map mId_Ast zs) \<and> distinct (map mId_Ast zs)" for zs
    by (induction zs) (auto simp: less_imp_le)
  have inj: "inj_on mId_Ast (set xs \<union> set ys)"
    using lin [of xs] assms(1,3) by (simp add: id_sorted_def distinct_map)
  show ?thesis
    using lin [of xs] lin [of ys] assms inj
    by (intro map_sorted_distinct_set_unique [of mId_Ast]) (simp_all add: id_sorted_def)
qed

lemma PointerSet_of_permute:
  assumes "set xs = set ys" "inj_on mId_Ast (set xs)"
  shows "PointerSet_of xs = PointerSet_of ys"
proof -
  have e: "id_sorted []" by (simp add: id_sorted_def)
  have "id_sorted (PointerSet_of xs)" "id_sorted (PointerSet_of ys)"
    unfolding PointerSet_of_def by (rule fold_PointerSet_insert_sorted [OF e])+
  moreover have "set (PointerSet_of xs) = set (PointerSet_of ys)"
    using assms e by (simp add: PointerSet_of_def set_fold_PointerSet_insert)
  ultimately show ?thesis by (rule id_sorted_unique)
qed

subsection \<open>Lookup in the table\<close>

lemma find_app:
  "find P (xs @ ys) = (case find P xs of None \<Rightarrow> find P ys | Some x \<Rightarrow> Some x)"
  by (induction xs) auto

lemma addAstToPool_first_match:
  assumes "addAstToPool p c = Some (p1, r)"
  shows "find (\<lambda>e. ast_eq e c) (mAsts p1) = Some r"
proof (cases "find (\<lambda>e. ast_eq e c) (mAsts p)")
  case (Some e)
  then show ?thesis using assms by (simp add: addAstToPool_def)
next
  case None
  then show ?thesis
    using assms
    by (auto simp: addAstToPool_def Let_def find_app ast_eq_set_id ast_eq_refl
             split: if_splits)
qed

subsection \<open>Absorption\<close>

lemma ex_astpool_built:
  "\<exists>p1 p2. addAstToPool AstPool_init (Ast 0 BOOL 7 []) = Some (p1, ex_x)
      \<and> addAstToPool p1 (Ast 0 BOOL 8 []) = Some (p2, ex_y)
      \<and> createAst True p2 AND (PointerSet_of [ex_y, ex_x]) = Some (ex_astpool, ex_a)"
  by (simp add: addAstToPool_def AstPool_init_def ast_eq_def Ast_negated_def set_id_def
      Let_def ex_x_def ex_y_def ex_a_def ex_na_def ex_astpool_def PointerSet_of_def
      createAst_def createAst_loop_step createAst_loop_end createAst_step_def
      next_after_def createAst_finish_def subast_def)

lemma ex_nested_and:
  "createAst True ex_astpool AND (PointerSet_of [ex_a, ex_na])
     = Some (ex_astpool\<lparr>mIdAllocator_Ast := 11,
               mAsts := mAsts ex_astpool @ [Ast 9 AND 0 [ex_x, ex_y, ex_na],
                  Ast 10 NOT 0 [Ast 9 AND 0 [ex_x, ex_y, ex_na]]]\<rparr>,
             Ast 9 AND 0 [ex_x, ex_y, ex_na])"
  by (simp add: addAstToPool_def ast_eq_def Ast_negated_def set_id_def
      Let_def ex_x_def ex_y_def ex_a_def ex_na_def ex_astpool_def PointerSet_of_def
      createAst_def createAst_loop_step createAst_loop_end createAst_step_def
      next_after_def createAst_finish_def subast_def flatten_at_def)

lemma id_sorted_append:
  "id_sorted (xs @ ys) \<longleftrightarrow>
     id_sorted xs \<and> id_sorted ys \<and> (\<forall>a\<in>set xs. \<forall>b\<in>set ys. mId_Ast a < mId_Ast b)"
  by (simp add: id_sorted_def sorted_wrt_append)

lemma id_sorted_Cons:
  "id_sorted (x # ys) \<longleftrightarrow> id_sorted ys \<and> (\<forall>b\<in>set ys. mId_Ast x < mId_Ast b)"
  by (auto simp: id_sorted_def)

lemma next_after_found:
  assumes "id_sorted (A @ e # e' # R)"
  shows "next_after e (A @ e # e' # R) = Some e'"
proof -
  have "\<forall>a\<in>set A. \<not> mId_Ast e < mId_Ast a"
    using assms by (auto simp: id_sorted_append id_sorted_Cons dest: less_imp_not_less)
  then have "find (\<lambda>z. mId_Ast e < mId_Ast z) A = None"
    by (simp add: find_None_iff)
  moreover have "mId_Ast e < mId_Ast e'"
    using assms by (simp add: id_sorted_append id_sorted_Cons)
  ultimately show ?thesis by (simp add: next_after_def find_app)
qed

lemma next_after_skip:
  assumes "id_sorted (A @ e' # R)" "\<forall>a\<in>set A. mId_Ast a < mId_Ast e" "mId_Ast e < mId_Ast e'"
  shows "next_after e (A @ e' # R) = Some e'"
proof -
  have "\<forall>a\<in>set A. \<not> mId_Ast e < mId_Ast a"
    using assms(2) by (auto dest: less_imp_not_less)
  then have "find (\<lambda>z. mId_Ast e < mId_Ast z) A = None"
    by (simp add: find_None_iff)
  then show ?thesis using assms(3) by (simp add: next_after_def find_app)
qed

lemma PointerSet_insert_before:
  assumes "mId_Ast c < mId_Ast e"
  shows "PointerSet_insert (A @ e # R) c = PointerSet_insert A c @ e # R"
  using assms by (induction A) auto

lemma fold_insert_before:
  assumes "\<forall>c\<in>set cs. mId_Ast c < mId_Ast e" "\<forall>a\<in>set A. mId_Ast a < mId_Ast e"
  shows "\<exists>A'. fold (\<lambda>a s. PointerSet_insert s a) cs (A @ e # R) = A' @ e # R
              \<and> (\<forall>a\<in>set A'. mId_Ast a < mId_Ast e)"
  using assms
proof (induction cs arbitrary: A)
  case Nil
  then show ?case by auto
next
  case (Cons c cs)
  have 1: "PointerSet_insert (A @ e # R) c = PointerSet_insert A c @ e # R"
    using Cons.prems(1) by (simp add: PointerSet_insert_before)
  have 2: "\<forall>a\<in>set (PointerSet_insert A c). mId_Ast a < mId_Ast e"
    using Cons.prems set_PointerSet_insert_subset [of A c] by auto
  from Cons.IH [OF _ 2] Cons.prems(1) show ?case by (simp add: 1)
qed

lemma flatten_at_shape:
  assumes s: "id_sorted (A @ e # R)"
    and c: "\<forall>c\<in>set (subasts e). mId_Ast c < mId_Ast e"
  shows "\<exists>A'. flatten_at e (A @ e # R) = A' @ R \<and> id_sorted (A' @ R)
              \<and> (\<forall>a\<in>set A'. mId_Ast a < mId_Ast e)"
proof -
  have "\<forall>a\<in>set A. mId_Ast a < mId_Ast e"
    using s by (simp add: id_sorted_append)
  from fold_insert_before [OF c this, of R] obtain A' where
    f: "fold (\<lambda>a s. PointerSet_insert s a) (subasts e) (A @ e # R) = A' @ e # R"
    and l: "\<forall>a\<in>set A'. mId_Ast a < mId_Ast e" by blast
  have "id_sorted (A' @ e # R)"
    using fold_PointerSet_insert_sorted [OF s, of "subasts e"] f by simp
  then have srt: "id_sorted (A' @ R)"
    by (auto simp: id_sorted_append id_sorted_Cons)
  have "e \<notin> set A'" using l by auto
  then have "remove1 e (A' @ e # R) = A' @ R" by (simp add: remove1_append)
  then show ?thesis using f l srt by (auto simp: flatten_at_def)
qed

lemma step_pair:
  assumes "id_sorted (A @ x # y # R)" "negation_pair p x y" "getType x \<noteq> t" "t = AND \<or> t = OR"
  shows "createAst_step p t (A @ x # y # R) x
           = Some (Inl (if t = AND then mpFalse_Ast p else mpTrue_Ast p))"
  using assms(2,3,4) next_after_found [OF assms(1)]
  by (auto simp: createAst_step_def negation_pair_def)

lemma step_plain:
  assumes "id_sorted (A @ e # e' # R)" "getType e \<noteq> t" "t = AND \<or> t = OR"
  shows "createAst_step p t (A @ e # e' # R) e
           = Some (Inl (if t = AND then mpFalse_Ast p else mpTrue_Ast p))
       \<or> createAst_step p t (A @ e # e' # R) e = Some (Inr (A @ e # e' # R, Some e'))"
  using assms(2,3) next_after_found [OF assms(1)]
  by (auto simp: createAst_step_def)

lemma step_flatten:
  assumes s: "id_sorted (A @ e # e' # R)" and t: "getType e = t" "t = AND \<or> t = OR"
    and c: "\<forall>c\<in>set (subasts e). mId_Ast c < mId_Ast e"
  shows "\<exists>A'. createAst_step p t (A @ e # e' # R) e = Some (Inr (A' @ e' # R, Some e'))
              \<and> id_sorted (A' @ e' # R)"
proof -
  from flatten_at_shape [OF s c] obtain A' where
    f: "flatten_at e (A @ e # e' # R) = A' @ e' # R" and srt: "id_sorted (A' @ e' # R)"
    and l: "\<forall>a\<in>set A'. mId_Ast a < mId_Ast e" by blast
  have "mId_Ast e < mId_Ast e'"
    using s by (simp add: id_sorted_append id_sorted_Cons)
  from next_after_skip [OF srt l this]
  have "next_after e (A' @ e' # R) = Some e'" .
  then show ?thesis using t f srt by (auto simp: createAst_step_def)
qed

lemma loop_reaches_pair:
  assumes "id_sorted (A @ B @ x # y # R)" "negation_pair p x y" "getType x \<noteq> t"
    "t = AND \<or> t = OR"
    "\<forall>e\<in>set B. getType e = t \<longrightarrow> (\<forall>c\<in>set (subasts e). mId_Ast c < mId_Ast e)"
  shows "createAst_loop p t (A @ B @ x # y # R, Some (hd (B @ [x])))
           = Some (Inl (if t = AND then mpFalse_Ast p else mpTrue_Ast p))"
  using assms(1,5)
proof (induction B arbitrary: A)
  case Nil
  then show ?case
    using step_pair [OF _ assms(2,3,4), of A R] by (simp add: createAst_loop_step)
next
  case (Cons e B)
  define e' where "e' = hd (B @ [x])"
  define R' where "R' = tl (B @ x # y # R)"
  have sp: "B @ x # y # R = e' # R'"
    by (cases B) (simp_all add: e'_def R'_def)
  have srt: "id_sorted (A @ e # e' # R')"
    using Cons.prems(1) sp by simp
  show ?case
  proof (cases "getType e = t")
    case True
    then have "\<forall>c\<in>set (subasts e). mId_Ast c < mId_Ast e"
      using Cons.prems(2) by simp
    from step_flatten [OF srt True assms(4) this, of p] obtain A' where
      st: "createAst_step p t (A @ e # e' # R') e = Some (Inr (A' @ e' # R', Some e'))"
      and s': "id_sorted (A' @ e' # R')" by blast
    have "createAst_loop p t (A' @ B @ x # y # R, Some (hd (B @ [x])))
            = Some (Inl (if t = AND then mpFalse_Ast p else mpTrue_Ast p))"
      using s' Cons.prems(2) by (intro Cons.IH) (simp_all add: sp)
    then show ?thesis
      using st by (simp add: createAst_loop_step sp e'_def)
  next
    case False
    have ih: "createAst_loop p t ((A @ [e]) @ B @ x # y # R, Some (hd (B @ [x])))
            = Some (Inl (if t = AND then mpFalse_Ast p else mpTrue_Ast p))"
      using Cons.prems by (intro Cons.IH) simp_all
    from step_plain [OF srt False assms(4), of p] show ?thesis
      using ih by (auto simp: createAst_loop_step sp e'_def)
  qed
qed

lemma adjacent_in_set:
  assumes s: "id_sorted s" and m: "a \<in> set s" "na \<in> set s"
    and i: "mId_Ast na = mId_Ast a + 1" "mId_Ast a < mId_Ast na"
  shows "\<exists>pre post. s = pre @ a # na # post"
proof -
  from split_list [OF m(1)] obtain pre rest where sp: "s = pre @ a # rest" by blast
  have lo: "\<forall>e\<in>set pre. mId_Ast e < mId_Ast a" and hi: "\<forall>e\<in>set rest. mId_Ast a < mId_Ast e"
    and sr: "id_sorted rest"
    using s unfolding sp by (auto simp: id_sorted_append id_sorted_Cons)
  have "na \<notin> set pre" using lo i(2) by (auto dest: less_imp_not_less)
  moreover have "na \<noteq> a" using i(2) by auto
  ultimately have nr: "na \<in> set rest" using m(2) sp by auto
  then obtain r post where rest: "rest = r # post" by (cases rest) auto
  have "r = na"
  proof (rule ccontr)
    assume ne: "r \<noteq> na"
    then have "na \<in> set post" using nr rest by simp
    then have "mId_Ast r < mId_Ast na" using sr rest by (simp add: id_sorted_Cons)
    moreover have "mId_Ast a < mId_Ast r" using hi rest by simp
    then have "mId_Ast a + 1 \<le> mId_Ast r" by (rule inc_le)
    ultimately show False using i(1) by simp
  qed
  then show ?thesis using sp rest by blast
qed

text \<open>
  Claim C5, as amended.  Let the operand set, ordered by id, contain a node \<open>a\<close> and
  \<open>na\<close>, the NOT node over \<open>a\<close> (or let \<open>a\<close> be TRUE and \<open>na\<close> be FALSE), where
  \<open>na\<close> has the id following that of \<open>a\<close> and the 32-bit id has not wrapped around
  between the two.  Let \<open>t\<close> be AND or OR.  If \<open>a\<close> is not itself a node of the
  connective \<open>t\<close> (\<open>na\<close>, a NOT node or FALSE, never is), and every operand of
  connective \<open>t\<close> with a smaller id than \<open>a\<close> has sub-asts of smaller ids than its own
  (as it has in a pool, where sub-asts are published before their parents), then
  \<open>createAst\<close> returns FALSE for AND and TRUE for OR and leaves the pool as it is: the
  scan finds \<open>a\<close> immediately followed by \<open>na\<close>.
\<close>

theorem absorption:
  assumes "id_sorted s" and "a \<in> set s" and "na \<in> set s" and "negation_pair p a na"
    and "mId_Ast na = mId_Ast a + 1" and "mId_Ast a < mId_Ast na"
    and "t = AND \<or> t = OR" and "getType a \<noteq> t"
    and "\<forall>e\<in>set s. mId_Ast e < mId_Ast a \<and> getType e = t \<longrightarrow>
           (\<forall>c\<in>set (subasts e). mId_Ast c < mId_Ast e)"
  shows "createAst simplify p t s
           = Some (p, if t = AND then mpFalse_Ast p else mpTrue_Ast p)"
proof -
  from adjacent_in_set [OF assms(1,2,3,5,6)] obtain pre post where
    sp: "s = pre @ a # na # post" by blast
  have lo: "\<forall>e\<in>set pre. mId_Ast e < mId_Ast a"
    using assms(1) unfolding sp by (simp add: id_sorted_append)
  have sub: "\<forall>e\<in>set pre. getType e = t \<longrightarrow> (\<forall>c\<in>set (subasts e). mId_Ast c < mId_Ast e)"
    using assms(9) lo unfolding sp by auto
  have srt: "id_sorted ([] @ pre @ a # na # post)" using assms(1) sp by simp
  have hd: "(case s of [] \<Rightarrow> None | x # _ \<Rightarrow> Some x) = Some (hd (pre @ [a]))"
    unfolding sp by (cases pre) simp_all
  have "createAst_loop p t (s, Some (hd (pre @ [a])))
          = Some (Inl (if t = AND then mpFalse_Ast p else mpTrue_Ast p))"
    using loop_reaches_pair [OF srt assms(4,8,7) sub] sp by simp
  then show ?thesis
    using assms(7) by (auto simp: createAst_def hd)
qed

theorem absorption_witness:
  "createAst True ex_astpool AND (PointerSet_of [ex_y, Ast 4 NOT 0 [ex_x], ex_x])
     = Some (ex_astpool, Ast 2 FALSE 0 [])
   \<and> createAst True ex_astpool OR (PointerSet_of [ex_y, Ast 4 NOT 0 [ex_x], ex_x])
     = Some (ex_astpool, Ast 1 TRUE 0 [])
   \<and> createAst True ex_astpool AND
        (PointerSet_of [Ast 10 NOT 0 [Ast 9 BOOL 9 []], ex_a, Ast 9 BOOL 9 []])
     = Some (ex_astpool, Ast 2 FALSE 0 [])"
proof -
  define s where "s = PointerSet_of [ex_y, Ast 4 NOT 0 [ex_x], ex_x]"
  define s' where "s' = PointerSet_of [Ast 10 NOT 0 [Ast 9 BOOL 9 []], ex_a, Ast 9 BOOL 9 []]"
  have s: "s = [ex_x, Ast 4 NOT 0 [ex_x], ex_y]"
    by (simp add: s_def PointerSet_of_def ex_x_def ex_y_def)
  have s': "s' = [ex_a, Ast 9 BOOL 9 [], Ast 10 NOT 0 [Ast 9 BOOL 9 []]]"
    by (simp add: s'_def PointerSet_of_def ex_a_def)
  have srt: "id_sorted s" "id_sorted s'"
    by (simp_all add: s s' id_sorted_def ex_x_def ex_y_def ex_a_def)
  have m: "ex_x \<in> set s" "Ast 4 NOT 0 [ex_x] \<in> set s"
    "Ast 9 BOOL 9 [] \<in> set s'" "Ast 10 NOT 0 [Ast 9 BOOL 9 []] \<in> set s'"
    by (simp_all add: s s')
  have np: "negation_pair ex_astpool ex_x (Ast 4 NOT 0 [ex_x])"
    "negation_pair ex_astpool (Ast 9 BOOL 9 []) (Ast 10 NOT 0 [Ast 9 BOOL 9 []])"
    by (simp_all add: negation_pair_def subast_def)
  have i: "mId_Ast (Ast 4 NOT 0 [ex_x]) = mId_Ast ex_x + 1"
    "mId_Ast ex_x < mId_Ast (Ast 4 NOT 0 [ex_x])"
    "mId_Ast (Ast 10 NOT 0 [Ast 9 BOOL 9 []]) = mId_Ast (Ast 9 BOOL 9 []) + 1"
    "mId_Ast (Ast 9 BOOL 9 []) < mId_Ast (Ast 10 NOT 0 [Ast 9 BOOL 9 []])"
    by (simp_all add: ex_x_def)
  have t: "getType ex_x \<noteq> AND" "getType ex_x \<noteq> OR" "getType (Ast 9 BOOL 9 []) \<noteq> AND"
    by (simp_all add: ex_x_def)
  have c: "\<forall>e\<in>set s. mId_Ast e < mId_Ast ex_x \<and> getType e = t \<longrightarrow>
           (\<forall>c\<in>set (subasts e). mId_Ast c < mId_Ast e)" for t
    by (simp add: s ex_x_def ex_y_def)
  have c': "\<forall>e\<in>set s'. mId_Ast e < mId_Ast (Ast 9 BOOL 9 []) \<and> getType e = AND \<longrightarrow>
           (\<forall>c\<in>set (subasts e). mId_Ast c < mId_Ast e)"
    by (simp add: s' ex_x_def ex_y_def ex_a_def)
  have f: "mpFalse_Ast ex_astpool = Ast 2 FALSE 0 []" "mpTrue_Ast ex_astpool = Ast 1 TRUE 0 []"
    by (simp_all add: ex_astpool_def)
  have w1: "createAst True ex_astpool AND s = Some (ex_astpool, Ast 2 FALSE 0 [])"
    using absorption [OF srt(1) m(1,2) np(1) i(1,2) _ t(1) c, of True] f by simp
  have w2: "createAst True ex_astpool OR s = Some (ex_astpool, Ast 1 TRUE 0 [])"
    using absorption [OF srt(1) m(1,2) np(1) i(1,2) _ t(2) c, of True] f by simp
  have w3: "createAst True ex_astpool AND s' = Some (ex_astpool, Ast 2 FALSE 0 [])"
    using absorption [OF srt(2) m(3,4) np(2) i(3,4) _ t(3) c', of True] f by simp
  from w1 w2 w3 show ?thesis unfolding s_def s'_def by simp
qed

text \<open>The claim as it was stated fails for a node \<open>a\<close> that is itself a conjunction:
  \<open>AND(a, NOT a)\<close> with \<open>a = AND(x, y)\<close> is flattened to \<open>AND(x, y, NOT a)\<close>, which is
  published as a new node.\<close>

theorem absorption_counterexample:
  "ex_a \<in> set (PointerSet_of [ex_a, ex_na]) \<and> ex_na \<in> set (PointerSet_of [ex_a, ex_na])
   \<and> ex_a \<in> set (mAsts ex_astpool) \<and> ex_na \<in> set (mAsts ex_astpool)
   \<and> negation_pair ex_astpool ex_a ex_na \<and> mId_Ast ex_na = mId_Ast ex_a + 1
   \<and> map_option snd (createAst True ex_astpool AND (PointerSet_of [ex_a, ex_na]))
       = Some (Ast 9 AND 0 [ex_x, ex_y, ex_na])
   \<and> Ast 9 AND 0 [ex_x, ex_y, ex_na] \<noteq> mpFalse_Ast ex_astpool"
proof -
  have "set (PointerSet_of [ex_a, ex_na]) = {ex_a, ex_na}"
    by (auto simp: PointerSet_of_def ex_a_def ex_na_def)
  moreover have "negation_pair ex_astpool ex_a ex_na"
    by (simp add: negation_pair_def ex_na_def subast_def)
  moreover have "mId_Ast ex_na = mId_Ast ex_a + 1"
    by (simp add: ex_na_def ex_a_def)
  moreover have "ex_a \<in> set (mAsts ex_astpool)" "ex_na \<in> set (mAsts ex_astpool)"
    "Ast 9 AND 0 [ex_x, ex_y, ex_na] \<noteq> mpFalse_Ast ex_astpool"
    by (simp_all add: ex_astpool_def)
  ultimately show ?thesis by (simp add: ex_nested_and)
qed

subsection \<open>Structural sharing\<close>

lemma addAstToPool_consts:
  "addAstToPool p c = Some (p1, r) \<Longrightarrow>
   mpTrue_Ast p1 = mpTrue_Ast p \<and> mpFalse_Ast p1 = mpFalse_Ast p"
  by (auto simp: addAstToPool_def Let_def split: option.splits if_splits)

lemma addAstToPool_grows:
  "addAstToPool p c = Some (p1, r) \<Longrightarrow> \<exists>zs. mAsts p1 = mAsts p @ zs"
  by (auto simp: addAstToPool_def Let_def split: option.splits if_splits)

lemma createAst_step_consts:
  fixes p p2 :: AstPool
  assumes "mpTrue_Ast p2 = mpTrue_Ast p" "mpFalse_Ast p2 = mpFalse_Ast p"
  shows "createAst_step p2 t s x = createAst_step p t s x"
  unfolding createAst_step_def assms ..

lemma createAst_loop_consts_aux:
  fixes p :: AstPool
  assumes "createAst_loop p t st = Some y"
  shows "\<forall>p2::AstPool. mpTrue_Ast p2 = mpTrue_Ast p \<and> mpFalse_Ast p2 = mpFalse_Ast p \<longrightarrow>
          createAst_loop p2 t st = Some y"
proof (rule createAst_loop.raw_induct [where P = "\<lambda>p t st y.
    \<forall>p2::AstPool. mpTrue_Ast p2 = mpTrue_Ast p \<and> mpFalse_Ast p2 = mpFalse_Ast p \<longrightarrow>
          createAst_loop p2 t st = Some y", OF _ assms])
  fix loop :: "AstPool \<Rightarrow> FormulaType \<Rightarrow> Ast list \<times> Ast option \<Rightarrow> (Ast + Ast list) option"
  fix p :: AstPool and t st y
  assume ih: "\<And>p t st y. loop p t st = Some y \<Longrightarrow>
     \<forall>p2::AstPool. mpTrue_Ast p2 = mpTrue_Ast p \<and> mpFalse_Ast p2 = mpFalse_Ast p \<longrightarrow>
          createAst_loop p2 t st = Some y"
  assume body: "(case snd st of None \<Rightarrow> Some (Inr (fst st))
      | Some x \<Rightarrow>
          (case createAst_step p t (fst st) x of None \<Rightarrow> None
           | Some (Inl r) \<Rightarrow> Some (Inl r)
           | Some (Inr st') \<Rightarrow> loop p t st')) = Some y"
  show "\<forall>p2::AstPool. mpTrue_Ast p2 = mpTrue_Ast p \<and> mpFalse_Ast p2 = mpFalse_Ast p \<longrightarrow>
          createAst_loop p2 t st = Some y"
  proof (intro allI impI)
    fix p2 :: AstPool assume c: "mpTrue_Ast p2 = mpTrue_Ast p \<and> mpFalse_Ast p2 = mpFalse_Ast p"
    then have stp: "createAst_step p2 t s x = createAst_step p t s x" for s x
      using createAst_step_consts [of p2 p] by blast
    obtain s it where Pair: "st = (s, it)" by (cases st)
    show "createAst_loop p2 t st = Some y"
    proof (cases it)
      case None
      then show ?thesis using body Pair by (simp add: createAst_loop_end)
    next
      case (Some x)
      note it = this
      show ?thesis
      proof (cases "createAst_step p t s x")
        case None
        then show ?thesis using body Pair it by simp
      next
        case (Some r)
        note sr = this
        show ?thesis
        proof (cases r)
          case (Inl z)
          then show ?thesis
            using body Pair it sr by (simp add: createAst_loop_step stp)
        next
          case (Inr st')
          then have "loop p t st' = Some y"
            using body Pair it sr by simp
          from ih [OF this] c have "createAst_loop p2 t st' = Some y" by blast
          then show ?thesis
            using Pair it sr Inr by (simp add: createAst_loop_step stp)
        qed
      qed
    qed
  qed
qed

lemma createAst_loop_consts:
  fixes p p2 :: AstPool
  assumes "createAst_loop p t st = Some y"
    and "mpTrue_Ast p2 = mpTrue_Ast p" and "mpFalse_Ast p2 = mpFalse_Ast p"
  shows "createAst_loop p2 t st = Some y"
  using createAst_loop_consts_aux [OF assms(1)] assms(2,3) by blast

lemma addAstToPool_again:
  assumes "addAstToPool p c = Some (p1, r)" and "mAsts p2 = mAsts p1 @ zs"
  shows "addAstToPool p2 c = Some (p2, r)"
proof -
  have "find (\<lambda>e. ast_eq e c) (mAsts p1) = Some r"
    using assms(1) by (rule addAstToPool_first_match)
  then have "find (\<lambda>e. ast_eq e c) (mAsts p2) = Some r"
    using assms(2) by (simp add: find_app)
  then show ?thesis by (rule addAstToPool_found)
qed

lemma createAst_finish_shape:
  fixes p :: AstPool
  shows "\<exists>e s'. \<forall>q::AstPool. mpTrue_Ast q = mpTrue_Ast p \<and> mpFalse_Ast q = mpFalse_Ast p \<longrightarrow>
           createAst_finish simplify q t s
             = (case e of Some ro \<Rightarrow> map_option (\<lambda>r. (q, r)) ro
                | None \<Rightarrow> addAstToPool q (Ast 0 t 0 s'))"
proof -
  define T where "T = mpTrue_Ast p"
  define F where "F = mpFalse_Ast p"
  define iT where "iT = (hd s = T)"
  define iF where "iF = (if hd s = T then (case tl s of [] \<Rightarrow> False | y # _ \<Rightarrow> y = F)
                         else hd s = F)"
  define early where "early =
               (if simplify \<and> t = AND then
                  (if iF then Some F
                   else if (if iT then remove1 T s else s) = [] then Some T else None)
                else if simplify \<and> t = OR then
                  (if iT then Some T
                   else if (if iF then remove1 F s else s) = [] then Some F else None)
                else if simplify \<and> t = IFF then
                  (if iF \<and> iT then Some F else None)
                else None)"
  define s' where "s' =
               (if simplify \<and> t = AND \<and> iT then remove1 T s
                else if simplify \<and> t = OR \<and> iF then remove1 F s
                else s)"
  define one where "one = (\<lambda>a. case t of AND \<Rightarrow> Some a | OR \<Rightarrow> Some a | XOR \<Rightarrow> Some a
                                | IFF \<Rightarrow> Some T | _ \<Rightarrow> None)"
  have eq: "createAst_finish simplify q t s
          = (if s = [] then Some (q, F)
             else case early of Some r \<Rightarrow> Some (q, r)
                  | None \<Rightarrow> (case s' of [a] \<Rightarrow> map_option (\<lambda>r. (q, r)) (one a)
                             | _ \<Rightarrow> addAstToPool q (Ast 0 t 0 s')))"
    if "mpTrue_Ast q = mpTrue_Ast p \<and> mpFalse_Ast q = mpFalse_Ast p" for q :: AstPool
  proof -
    have q: "mpTrue_Ast q = T" "mpFalse_Ast q = F" using that by (simp_all add: T_def F_def)
    show ?thesis
      unfolding createAst_finish_def Let_def newAstWithOneSubast_def q
        early_def s'_def iT_def iF_def one_def ..
  qed
  have single: "\<exists>a. s' = [a]" if "length s' = 1"
    using that by (cases s') auto
  consider (empty) "s = []" | (early) r where "s \<noteq> []" "early = Some r"
    | (one) a where "s \<noteq> []" "early = None" "s' = [a]"
    | (many) "s \<noteq> []" "early = None" "length s' \<noteq> 1"
    using single by (cases early) auto
  then show ?thesis
  proof cases
    case empty
    have "\<forall>q::AstPool. mpTrue_Ast q = mpTrue_Ast p \<and> mpFalse_Ast q = mpFalse_Ast p \<longrightarrow>
           createAst_finish simplify q t s
             = (case Some (Some F) of Some ro \<Rightarrow> map_option (\<lambda>r. (q, r)) ro
                | None \<Rightarrow> addAstToPool q (Ast 0 t 0 s'))"
      unfolding empty by (auto simp: eq [unfolded empty])
    then show ?thesis by blast
  next
    case (early r)
    have "\<forall>q::AstPool. mpTrue_Ast q = mpTrue_Ast p \<and> mpFalse_Ast q = mpFalse_Ast p \<longrightarrow>
           createAst_finish simplify q t s
             = (case Some (Some r) of Some ro \<Rightarrow> map_option (\<lambda>r. (q, r)) ro
                | None \<Rightarrow> addAstToPool q (Ast 0 t 0 s'))"
      using early by (auto simp: eq)
    then show ?thesis by blast
  next
    case (one a)
    have "\<forall>q::AstPool. mpTrue_Ast q = mpTrue_Ast p \<and> mpFalse_Ast q = mpFalse_Ast p \<longrightarrow>
           createAst_finish simplify q t s
             = (case Some (one a) of Some ro \<Rightarrow> map_option (\<lambda>r. (q, r)) ro
                | None \<Rightarrow> addAstToPool q (Ast 0 t 0 s'))"
      using one(1,2,3) by (auto simp: eq)
    then show ?thesis by blast
  next
    case many
    have "(case s' of [a] \<Rightarrow> X a | _ \<Rightarrow> Y) = Y" for X :: "Ast \<Rightarrow> (AstPool \<times> Ast) option" and Y
      using many(3) by (cases s'; cases "tl s'") auto
    then have "\<forall>q::AstPool. mpTrue_Ast q = mpTrue_Ast p \<and> mpFalse_Ast q = mpFalse_Ast p \<longrightarrow>
           createAst_finish simplify q t s
             = (case None :: Ast option option of Some ro \<Rightarrow> map_option (\<lambda>r. (q, r)) ro
                | None \<Rightarrow> addAstToPool q (Ast 0 t 0 s'))"
      using many(1,2) by (auto simp: eq)
    then show ?thesis by blast
  qed
qed

lemma createAst_finish_again:
  fixes p p2 :: AstPool
  assumes f: "createAst_finish simplify p t s = Some (p1, r)"
    and g: "mAsts p2 = mAsts p1 @ zs"
    and c: "mpTrue_Ast p2 = mpTrue_Ast p" "mpFalse_Ast p2 = mpFalse_Ast p"
  shows "createAst_finish simplify p2 t s = Some (p2, r)"
proof -
  from createAst_finish_shape [of p simplify t s] obtain e s' where
    sh: "\<And>q::AstPool. mpTrue_Ast q = mpTrue_Ast p \<Longrightarrow> mpFalse_Ast q = mpFalse_Ast p \<Longrightarrow>
           createAst_finish simplify q t s
             = (case e of Some ro \<Rightarrow> map_option (\<lambda>r. (q, r)) ro
                | None \<Rightarrow> addAstToPool q (Ast 0 t 0 s'))"
    by blast
  show ?thesis
  proof (cases e)
    case None
    then have "addAstToPool p (Ast 0 t 0 s') = Some (p1, r)"
      using f sh [of p] by simp
    from addAstToPool_again [OF this g] show ?thesis
      using sh [OF c] None by simp
  next
    case (Some ro)
    then have "ro = Some r" using f sh [of p] by auto
    then show ?thesis using sh [OF c] Some by simp
  qed
qed

lemma createAst_again:
  fixes p p2 :: AstPool
  assumes f: "createAst simplify p t s = Some (p1, r)"
    and g: "mAsts p2 = mAsts p1 @ zs"
    and c: "mpTrue_Ast p2 = mpTrue_Ast p" "mpFalse_Ast p2 = mpFalse_Ast p"
  shows "createAst simplify p2 t s = Some (p2, r)"
proof -
  define it where "it = (case s of [] \<Rightarrow> None | x # _ \<Rightarrow> Some x)"
  have t: "t = AND \<or> t = OR \<or> t = XOR \<or> t = IFF"
    using f by (auto simp: createAst_def split: if_splits)
  obtain res where l: "createAst_loop p t (s, it) = Some res"
    using f t by (auto simp: createAst_def it_def split: option.splits)
  from createAst_loop_consts [OF l c] have l2: "createAst_loop p2 t (s, it) = Some res" .
  show ?thesis
  proof (cases res)
    case (Inl r0)
    then have "r0 = r" using f t l by (auto simp: createAst_def it_def [symmetric])
    then show ?thesis
      using t l2 Inl c by (auto simp: createAst_def it_def [symmetric])
  next
    case (Inr s1)
    then have "createAst_finish simplify p t s1 = Some (p1, r)"
      using f t l by (auto simp: createAst_def it_def [symmetric])
    from createAst_finish_again [OF this g c] show ?thesis
      using t l2 Inr by (auto simp: createAst_def it_def [symmetric])
  qed
qed

lemma createAst_finish_keeps:
  fixes p :: AstPool
  assumes f: "createAst_finish simplify p t s = Some (p1, r)"
  shows "mpTrue_Ast p1 = mpTrue_Ast p \<and> mpFalse_Ast p1 = mpFalse_Ast p
         \<and> (\<exists>zs. mAsts p1 = mAsts p @ zs)"
proof -
  from createAst_finish_shape [of p simplify t s] obtain e s' where
    sh: "createAst_finish simplify p t s
             = (case e of Some ro \<Rightarrow> map_option (\<lambda>r. (p, r)) ro
                | None \<Rightarrow> addAstToPool p (Ast 0 t 0 s'))"
    by blast
  show ?thesis
  proof (cases e)
    case None
    then have "addAstToPool p (Ast 0 t 0 s') = Some (p1, r)" using f sh by simp
    then show ?thesis using addAstToPool_consts addAstToPool_grows by blast
  next
    case (Some ro)
    then have "p1 = p" using f sh by auto
    then show ?thesis by simp
  qed
qed

lemma createAst_keeps:
  fixes p :: AstPool
  assumes f: "createAst simplify p t s = Some (p1, r)"
  shows "mpTrue_Ast p1 = mpTrue_Ast p \<and> mpFalse_Ast p1 = mpFalse_Ast p
         \<and> (\<exists>zs. mAsts p1 = mAsts p @ zs)"
proof -
  have "p1 = p \<or> (\<exists>s1. createAst_finish simplify p t s1 = Some (p1, r))"
    using f by (auto simp: createAst_def split: if_splits option.splits sum.splits)
  then show ?thesis using createAst_finish_keeps by auto
qed

lemma next_after_last:
  assumes "id_sorted (A @ [e])"
  shows "next_after e (A @ [e]) = None"
proof -
  have "\<forall>a\<in>set A. \<not> mId_Ast e < mId_Ast a"
    using assms by (auto simp: id_sorted_append dest: less_imp_not_less)
  then show ?thesis by (auto simp: next_after_def find_None_iff)
qed

lemma loop_plain:
  assumes "id_sorted (A @ B)"
    and "\<forall>x\<in>set B. \<not> (getType x = t \<and> (t = AND \<or> t = OR))"
    and "\<forall>x\<in>set B. \<forall>y\<in>set B. \<not> negation_pair p x y"
  shows "createAst_loop p t (A @ B, case B of [] \<Rightarrow> None | x # _ \<Rightarrow> Some x) = Some (Inr (A @ B))"
  using assms
proof (induction B arbitrary: A)
  case Nil
  then show ?case by (simp add: createAst_loop_end)
next
  case (Cons e B)
  have nt: "\<not> (getType e = t \<and> (t = AND \<or> t = OR))" using Cons.prems(2) by simp
  show ?case
  proof (cases B)
    case Nil
    have "next_after e (A @ [e]) = None"
      using Cons.prems(1) Nil by (simp add: next_after_last)
    then have "createAst_step p t (A @ [e]) e = Some (Inr (A @ [e], None))"
      using nt by (auto simp: createAst_step_def)
    then show ?thesis using Nil by (simp add: createAst_loop_step createAst_loop_end)
  next
    case (Cons e' R)
    have "next_after e (A @ e # e' # R) = Some e'"
      using Cons.prems(1) Cons by (simp add: next_after_found)
    moreover have "\<not> negation_pair p e e'" using Cons.prems(3) Cons by simp
    ultimately have st: "createAst_step p t (A @ e # e' # R) e = Some (Inr (A @ e # e' # R, Some e'))"
      using nt by (auto simp: createAst_step_def negation_pair_def)
    have "createAst_loop p t ((A @ [e]) @ B, case B of [] \<Rightarrow> None | x # _ \<Rightarrow> Some x)
            = Some (Inr ((A @ [e]) @ B))"
      using Cons.prems by (intro Cons.IH) simp_all
    then show ?thesis using st Cons by (simp add: createAst_loop_step)
  qed
qed

lemma createAst_plain:
  assumes t: "t = AND \<or> t = OR \<or> t = XOR \<or> t = IFF"
    and s: "id_sorted s" "2 \<le> length s"
    and nt: "\<forall>x\<in>set s. \<not> (getType x = t \<and> (t = AND \<or> t = OR))"
    and nc: "\<forall>x\<in>set s. x \<noteq> mpTrue_Ast p \<and> x \<noteq> mpFalse_Ast p"
    and nn: "\<forall>x\<in>set s. \<forall>y\<in>set s. \<not> negation_pair p x y"
  shows "createAst simplify p t s = addAstToPool p (Ast 0 t 0 s)"
proof -
  obtain a b R where sp: "s = a # b # R"
    using s(2) by (cases s; cases "tl s") auto
  have l: "createAst_loop p t (s, case s of [] \<Rightarrow> None | x # _ \<Rightarrow> Some x) = Some (Inr s)"
    using loop_plain [of "[]" s t p] s(1) nt nn by simp
  have a: "a \<noteq> mpTrue_Ast p" "a \<noteq> mpFalse_Ast p" using nc sp by auto
  have "createAst_finish simplify p t (a # b # R) = addAstToPool p (Ast 0 t 0 (a # b # R))"
    using a by (simp add: createAst_finish_def Let_def)
  then show ?thesis using t l sp by (auto simp: createAst_def)
qed

text \<open>
  Claim C1.  Interning: if the shape of the candidate is in the lookup table,
  \<open>addAstToPool\<close> returns the node of the table and leaves the pool as it is; once a
  call has returned a node for a shape, every later call for a candidate of the same shape
  (same type, same sub-asts, same payload), in that pool or in one whose table has grown
  since, returns that same node and changes nothing.  The constructor: for an operand set
  of at least two nodes, none of them TRUE, FALSE, a node of the connective built or the
  negation of another operand, \<open>createAst\<close> is \<open>addAstToPool\<close> of the candidate over that
  set.  Whatever \<open>createAst\<close> returns, it keeps TRUE and FALSE, only appends to the
  table, and the same call made again on the pool it left, or on a pool whose table has
  grown since, returns the same node and changes nothing.  The operand set does not
  depend on the order in which the operands are given, so after \<open>AND(a, b, c)\<close> the
  call \<open>AND(c, b, a)\<close> returns the node that the first call returned.
\<close>

theorem structural_sharing:
  fixes p p1 p2 :: AstPool
  shows
  "(find (\<lambda>e. ast_eq e ast) (mAsts p) = Some e \<longrightarrow> addAstToPool p ast = Some (p, e))
   \<and> (addAstToPool p c1 = Some (p1, r1) \<and> mAsts p2 = mAsts p1 @ zs \<and> ast_eq c1 c2 \<longrightarrow>
        addAstToPool p2 c2 = Some (p2, r1) \<and> ast_eq r1 c1 \<and> r1 \<in> set (mAsts p2))
   \<and> ((t = AND \<or> t = OR \<or> t = XOR \<or> t = IFF) \<and> id_sorted s \<and> 2 \<le> length s
        \<and> (\<forall>x\<in>set s. \<not> (getType x = t \<and> (t = AND \<or> t = OR))
               \<and> x \<noteq> mpTrue_Ast p \<and> x \<noteq> mpFalse_Ast p
               \<and> (\<forall>y\<in>set s. \<not> negation_pair p x y)) \<longrightarrow>
        createAst simplify p t s = addAstToPool p (Ast 0 t 0 s))
   \<and> (createAst simplify p t s = Some (p1, r) \<longrightarrow>
        mpTrue_Ast p1 = mpTrue_Ast p \<and> mpFalse_Ast p1 = mpFalse_Ast p
        \<and> (\<exists>zs. mAsts p1 = mAsts p @ zs)
        \<and> createAst simplify p1 t s = Some (p1, r))
   \<and> (createAst simplify p t s = Some (p1, r) \<and> mAsts p2 = mAsts p1 @ zs
        \<and> mpTrue_Ast p2 = mpTrue_Ast p \<and> mpFalse_Ast p2 = mpFalse_Ast p \<longrightarrow>
        createAst simplify p2 t s = Some (p2, r))
   \<and> (set xs = set ys \<and> inj_on mId_Ast (set xs)
        \<and> createAst simplify p t (PointerSet_of xs) = Some (p1, r) \<longrightarrow>
        createAst simplify p1 t (PointerSet_of ys) = Some (p1, r))
   \<and> (mId_Ast a \<noteq> mId_Ast b \<and> mId_Ast a \<noteq> mId_Ast c \<and> mId_Ast b \<noteq> mId_Ast c
        \<and> createAst simplify p AND (PointerSet_of [a, b, c]) = Some (p1, r) \<longrightarrow>
        createAst simplify p1 AND (PointerSet_of [c, b, a]) = Some (p1, r))"
proof -
  have again: "createAst simplify q1 t' s' = Some (q1, r')"
    if "createAst simplify q t' s' = Some (q1, r')" for q q1 :: AstPool and t' s' r'
    using createAst_again [OF that, of q1 "[]"] createAst_keeps [OF that] by simp
  have c1: "find (\<lambda>e. ast_eq e ast) (mAsts p) = Some e \<longrightarrow> addAstToPool p ast = Some (p, e)"
    using addAstToPool_found by blast
  have c2: "addAstToPool p c1 = Some (p1, r1) \<and> mAsts p2 = mAsts p1 @ zs \<and> ast_eq c1 c2 \<longrightarrow>
        addAstToPool p2 c2 = Some (p2, r1) \<and> ast_eq r1 c1 \<and> r1 \<in> set (mAsts p2)"
  proof (intro impI)
    assume a: "addAstToPool p c1 = Some (p1, r1) \<and> mAsts p2 = mAsts p1 @ zs \<and> ast_eq c1 c2"
    then have f: "find (\<lambda>e. ast_eq e c1) (mAsts p1) = Some r1"
      using addAstToPool_first_match by blast
    have "(\<lambda>e. ast_eq e c2) = (\<lambda>e. ast_eq e c1)"
      using a ast_eq_cong by auto
    then have "find (\<lambda>e. ast_eq e c2) (mAsts p2) = Some r1"
      using f a by (simp add: find_app)
    then have "addAstToPool p2 c2 = Some (p2, r1)" by (rule addAstToPool_found)
    moreover have "ast_eq r1 c1" using f by (auto simp: find_Some_iff)
    moreover have "r1 \<in> set (mAsts p2)" using f a by (auto simp: find_Some_iff)
    ultimately show "addAstToPool p2 c2 = Some (p2, r1) \<and> ast_eq r1 c1 \<and> r1 \<in> set (mAsts p2)"
      by simp
  qed
  have c3: "(t = AND \<or> t = OR \<or> t = XOR \<or> t = IFF) \<and> id_sorted s \<and> 2 \<le> length s
        \<and> (\<forall>x\<in>set s. \<not> (getType x = t \<and> (t = AND \<or> t = OR))
               \<and> x \<noteq> mpTrue_Ast p \<and> x \<noteq> mpFalse_Ast p
               \<and> (\<forall>y\<in>set s. \<not> negation_pair p x y)) \<longrightarrow>
        createAst simplify p t s = addAstToPool p (Ast 0 t 0 s)"
    by (intro impI createAst_plain) blast+
  have c4: "createAst simplify p t s = Some (p1, r) \<longrightarrow>
        mpTrue_Ast p1 = mpTrue_Ast p \<and> mpFalse_Ast p1 = mpFalse_Ast p
        \<and> (\<exists>zs. mAsts p1 = mAsts p @ zs)
        \<and> createAst simplify p1 t s = Some (p1, r)"
    using createAst_keeps again by blast
  have c5: "createAst simplify p t s = Some (p1, r) \<and> mAsts p2 = mAsts p1 @ zs
        \<and> mpTrue_Ast p2 = mpTrue_Ast p \<and> mpFalse_Ast p2 = mpFalse_Ast p \<longrightarrow>
        createAst simplify p2 t s = Some (p2, r)"
    using createAst_again by blast
  have c6: "set xs = set ys \<and> inj_on mId_Ast (set xs)
        \<and> createAst simplify p t (PointerSet_of xs) = Some (p1, r) \<longrightarrow>
        createAst simplify p1 t (PointerSet_of ys) = Some (p1, r)"
  proof (intro impI)
    assume a: "set xs = set ys \<and> inj_on mId_Ast (set xs)
        \<and> createAst simplify p t (PointerSet_of xs) = Some (p1, r)"
    then have "PointerSet_of xs = PointerSet_of ys" using PointerSet_of_permute by blast
    then show "createAst simplify p1 t (PointerSet_of ys) = Some (p1, r)"
      using a again [of p t "PointerSet_of xs" p1 r] by simp
  qed
  have c7: "mId_Ast a \<noteq> mId_Ast b \<and> mId_Ast a \<noteq> mId_Ast c \<and> mId_Ast b \<noteq> mId_Ast c
        \<and> createAst simplify p AND (PointerSet_of [a, b, c]) = Some (p1, r) \<longrightarrow>
        createAst simplify p1 AND (PointerSet_of [c, b, a]) = Some (p1, r)"
  proof (intro impI)
    assume a: "mId_Ast a \<noteq> mId_Ast b \<and> mId_Ast a \<noteq> mId_Ast c \<and> mId_Ast b \<noteq> mId_Ast c
        \<and> createAst simplify p AND (PointerSet_of [a, b, c]) = Some (p1, r)"
    have "PointerSet_of [a, b, c] = PointerSet_of [c, b, a]"
      by (rule PointerSet_of_permute) (use a in \<open>auto simp: inj_on_def\<close>)
    then show "createAst simplify p1 AND (PointerSet_of [c, b, a]) = Some (p1, r)"
      using a again [of p AND "PointerSet_of [a, b, c]" p1 r] by simp
  qed
  from c1 c2 c3 c4 c5 c6 c7 show ?thesis by (intro conjI)
qed

theorem structural_sharing_witness:
  "addAstToPool AstPool_init (Ast 0 TRUE 0 []) = Some (AstPool_init, Ast 1 TRUE 0 [])
   \<and> (\<exists>p1. addAstToPool AstPool_init (Ast 0 BOOL 7 []) = Some (p1, Ast 3 BOOL 7 [])
          \<and> addAstToPool p1 (Ast 99 BOOL 7 []) = Some (p1, Ast 3 BOOL 7 []))
   \<and> (\<exists>p3 p4.
          createAst True ex_astpool AND (PointerSet_of [ex_x, ex_y, ex_na])
            = Some (p3, Ast 9 AND 0 [ex_x, ex_y, ex_na])
        \<and> addAstToPool ex_astpool (Ast 0 AND 0 [ex_x, ex_y, ex_na])
            = Some (p3, Ast 9 AND 0 [ex_x, ex_y, ex_na])
        \<and> mAsts p3 = mAsts ex_astpool
            @ [Ast 9 AND 0 [ex_x, ex_y, ex_na], Ast 10 NOT 0 [Ast 9 AND 0 [ex_x, ex_y, ex_na]]]
        \<and> createAst True p3 AND (PointerSet_of [ex_x, ex_y, ex_na])
            = Some (p3, Ast 9 AND 0 [ex_x, ex_y, ex_na])
        \<and> createAst True p3 AND (PointerSet_of [ex_na, ex_y, ex_x])
            = Some (p3, Ast 9 AND 0 [ex_x, ex_y, ex_na])
        \<and> createAst True p3 AND (PointerSet_of [ex_y, ex_na, ex_x, ex_y])
            = Some (p3, Ast 9 AND 0 [ex_x, ex_y, ex_na])
        \<and> addAstToPool p3 (Ast 0 BOOL 9 []) = Some (p4, Ast 11 BOOL 9 [])
        \<and> createAst True p4 AND (PointerSet_of [ex_x, ex_y, ex_na])
            = Some (p4, Ast 9 AND 0 [ex_x, ex_y, ex_na]))"
proof -
  note th = structural_sharing
  define N where "N = Ast 9 AND 0 [ex_x, ex_y, ex_na]"
  define s where "s = PointerSet_of [ex_x, ex_y, ex_na]"
  define p3 where "p3 = ex_astpool\<lparr>mIdAllocator_Ast := 11,
                           mAsts := mAsts ex_astpool @ [N, Ast 10 NOT 0 [N]]\<rparr>"
  define p4 where "p4 = p3\<lparr>mIdAllocator_Ast := 13,
                           mAsts := mAsts p3 @ [Ast 11 BOOL 9 [], Ast 12 NOT 0 [Ast 11 BOOL 9 []]]\<rparr>"
  have f: "find (\<lambda>e. ast_eq e (Ast 0 TRUE 0 [])) (mAsts AstPool_init) = Some (Ast 1 TRUE 0 [])"
    by (simp add: AstPool_init_def ast_eq_def)
  have w1: "addAstToPool AstPool_init (Ast 0 TRUE 0 []) = Some (AstPool_init, Ast 1 TRUE 0 [])"
    using th [THEN conjunct1, of "Ast 0 TRUE 0 []" AstPool_init "Ast 1 TRUE 0 []"] f by simp
  obtain p1 where a: "addAstToPool AstPool_init (Ast 0 BOOL 7 []) = Some (p1, Ast 3 BOOL 7 [])"
    by (simp add: addAstToPool_def AstPool_init_def ast_eq_def Ast_negated_def set_id_def
        Let_def)
  have e: "ast_eq (Ast 0 BOOL 7 []) (Ast 99 BOOL 7 [])" by (simp add: ast_eq_def)
  have w2: "addAstToPool p1 (Ast 99 BOOL 7 []) = Some (p1, Ast 3 BOOL 7 [])"
    using th [THEN conjunct2, THEN conjunct1, of AstPool_init "Ast 0 BOOL 7 []" p1
        "Ast 3 BOOL 7 []" p1 "[]" "Ast 99 BOOL 7 []"] a e
    by simp
  have s: "s = [ex_x, ex_y, ex_na]"
    by (simp add: s_def PointerSet_of_def ex_x_def ex_y_def ex_na_def ex_a_def)
  have h: "id_sorted s" "2 \<le> length s"
    "\<forall>x\<in>set s. \<not> (getType x = AND \<and> (AND = AND \<or> AND = OR))
        \<and> x \<noteq> mpTrue_Ast ex_astpool \<and> x \<noteq> mpFalse_Ast ex_astpool
        \<and> (\<forall>y\<in>set s. \<not> negation_pair ex_astpool x y)"
    by (simp_all add: s id_sorted_def ex_x_def ex_y_def ex_na_def ex_a_def ex_astpool_def
        negation_pair_def subast_def)
  have ad: "addAstToPool ex_astpool (Ast 0 AND 0 s) = Some (p3, N)"
    by (simp add: s addAstToPool_def ast_eq_def Ast_negated_def set_id_def Let_def
        ex_x_def ex_y_def ex_a_def ex_na_def ex_astpool_def p3_def N_def)
  have w3: "createAst True ex_astpool AND s = Some (p3, N)"
    using th [THEN conjunct2, THEN conjunct2, THEN conjunct1, of AND s ex_astpool True] h ad
    by simp
  have w4: "createAst True p3 AND s = Some (p3, N)"
    using th [THEN conjunct2, THEN conjunct2, THEN conjunct2, THEN conjunct1,
        of True ex_astpool AND s p3 N] w3 by simp
  have ids: "mId_Ast ex_x \<noteq> mId_Ast ex_y \<and> mId_Ast ex_x \<noteq> mId_Ast ex_na
       \<and> mId_Ast ex_y \<noteq> mId_Ast ex_na"
    by (simp add: ex_x_def ex_y_def ex_na_def)
  have w7: "createAst True p3 AND (PointerSet_of [ex_na, ex_y, ex_x]) = Some (p3, N)"
    using th [THEN conjunct2, THEN conjunct2, THEN conjunct2, THEN conjunct2, THEN conjunct2,
        THEN conjunct2, of ex_x ex_y ex_na True ex_astpool p3 N] ids w3
    unfolding s_def by simp
  have inj: "set [ex_x, ex_y, ex_na] = set [ex_y, ex_na, ex_x, ex_y]
       \<and> inj_on mId_Ast (set [ex_x, ex_y, ex_na])"
    by (auto simp: ex_x_def ex_y_def ex_na_def)
  have w6: "createAst True p3 AND (PointerSet_of [ex_y, ex_na, ex_x, ex_y]) = Some (p3, N)"
    using th [THEN conjunct2, THEN conjunct2, THEN conjunct2, THEN conjunct2, THEN conjunct2,
        THEN conjunct1, of "[ex_x, ex_y, ex_na]" "[ex_y, ex_na, ex_x, ex_y]" True ex_astpool
        AND p3 N] inj w3
    unfolding s_def by simp
  have a4: "addAstToPool p3 (Ast 0 BOOL 9 []) = Some (p4, Ast 11 BOOL 9 [])"
    by (simp add: addAstToPool_def ast_eq_def Ast_negated_def set_id_def Let_def
        ex_x_def ex_y_def ex_a_def ex_na_def ex_astpool_def p3_def p4_def N_def)
  have g: "mAsts p4 = mAsts p3 @ [Ast 11 BOOL 9 [], Ast 12 NOT 0 [Ast 11 BOOL 9 []]]
       \<and> mpTrue_Ast p4 = mpTrue_Ast ex_astpool \<and> mpFalse_Ast p4 = mpFalse_Ast ex_astpool"
    by (simp add: p4_def p3_def)
  have w5: "createAst True p4 AND s = Some (p4, N)"
    using th [THEN conjunct2, THEN conjunct2, THEN conjunct2, THEN conjunct2, THEN conjunct1,
        of True ex_astpool AND s p3 N p4
           "[Ast 11 BOOL 9 [], Ast 12 NOT 0 [Ast 11 BOOL 9 []]]"] w3 g
    by simp
  have m: "mAsts p3 = mAsts ex_astpool @ [N, Ast 10 NOT 0 [N]]" by (simp add: p3_def)
  note r3 = w3 [unfolded s_def N_def] and rd = ad [unfolded s N_def]
    and rm = m [unfolded N_def] and r4 = w4 [unfolded s_def N_def]
    and r7 = w7 [unfolded N_def] and r6 = w6 [unfolded N_def]
    and r5 = w5 [unfolded s_def N_def]
  from w1 a w2 r3 rd rm r4 r7 r6 a4 r5 show ?thesis by blast
qed

end
